theory Spec2Isabelle
  imports Complex_Main "HOL-Library.Log_Nat"
begin

section \<open>Run-time failures\<close>

text \<open>
  A Go function of this package either returns or panics. The panics that the package can
  raise are: \<open>ErrNaN\<close> (raised by \<open>math/big\<close> on \<open>0/0\<close>, \<open>Inf/Inf\<close>, \<open>0 * Inf\<close>,
  \<open>Inf - Inf\<close>), an index out of range, slice bounds out of range, a negative length
  given to \<open>make\<close>, and a nil pointer dereference. \<open>NewRMI\<close> can moreover return an
  error value (\<open>InputError\<close>) next to a nil tree.
\<close>

datatype panic = ErrNaN | IndexOutOfRange | SliceBounds | MakeSliceLen | NilDeref

datatype failure = InputError | Panic panic

section \<open>The arithmetic of \<open>math/big.Float\<close>\<close>

text \<open>
  A \<open>big.Float\<close> is a binary floating-point number with its own precision (the number of
  mantissa bits), a sign, and one of the forms zero, finite, infinite. Every operation
  \<open>z.Op(x, y)\<close> computes the exact result and rounds it to the precision of the receiver
  \<open>z\<close>; a receiver of precision 0 (a fresh \<open>new(big.Float)\<close>) first takes the larger
  precision of the operands. The rounding mode is never changed by the program, so it is
  the default, round to nearest even. The model keeps the precision, the sign (zeros are
  signed) and the magnitude as an exact rational; the exponent is taken unbounded (Go's
  is 32 bits wide, out of reach of keys of fewer than \<open>2^31\<close> bits).
\<close>

datatype Float = Finite (prec: nat) (neg: bool) (mag: rat) | Infinite (prec: nat) (neg: bool)

text \<open>\<open>binexp v\<close> is the binary exponent \<open>e\<close> of \<open>v > 0\<close>: \<open>2^(e-1) \<le> v < 2^e\<close>.\<close>

definition binexp :: "rat \<Rightarrow> int" where
  "binexp v = (let (a, b) = quotient_of v; k = bitlen a - bitlen b
               in if v < 2 powi k then k else k + 1)"

text \<open>Rounding to the nearest integer, ties to the even one.\<close>

definition rne :: "rat \<Rightarrow> int" where
  "rne x = (let f = \<lfloor>x\<rfloor>; d = x - of_int f
            in if d < 1 / 2 then f else if 1 / 2 < d then f + 1
               else if even f then f else f + 1)"

text \<open>Rounding a magnitude \<open>v \<ge> 0\<close> to \<open>p\<close> mantissa bits.\<close>

definition round_to :: "nat \<Rightarrow> rat \<Rightarrow> rat" where
  "round_to p v = (if v = 0 then 0
                   else let u = 2 powi (binexp v - int p) in of_int (rne (v / u)) * u)"

definition sval :: "Float \<Rightarrow> rat" where
  "sval x = (if neg x then - mag x else mag x)"

definition is_zero :: "Float \<Rightarrow> bool" where
  "is_zero x = (case x of Finite _ _ a \<Rightarrow> a = 0 | Infinite _ _ \<Rightarrow> False)"

definition is_inf :: "Float \<Rightarrow> bool" where
  "is_inf x = (case x of Finite _ _ _ \<Rightarrow> False | Infinite _ _ \<Rightarrow> True)"

text \<open>
  The precision of the result: that of the receiver, or the larger one of the operands
  when the receiver is fresh.
\<close>

definition zprec :: "nat \<Rightarrow> Float \<Rightarrow> Float \<Rightarrow> nat" where
  "zprec zp x y = (if zp = 0 then max (prec x) (prec y) else zp)"

text \<open>
  The exact signed value \<open>v\<close> rounded to \<open>p\<close> bits; \<open>zneg\<close> is the sign of the result
  when it is an exact zero.
\<close>

definition rounded :: "nat \<Rightarrow> bool \<Rightarrow> rat \<Rightarrow> Float" where
  "rounded p zneg v = (if v = 0 then Finite p zneg 0 else Finite p (v < 0) (round_to p \<bar>v\<bar>))"

text \<open>
  \<open>z.Add(x, y)\<close>: panics on infinities of opposite signs; \<open>-0 + -0 = -0\<close>, every other
  exact zero is \<open>+0\<close>.
\<close>

definition Add :: "nat \<Rightarrow> Float \<Rightarrow> Float \<Rightarrow> panic + Float" where
  "Add zp x y =
     (let p = zprec zp x y in
      if is_inf x \<and> is_inf y \<and> neg x \<noteq> neg y then Inl ErrNaN
      else if is_inf x then Inr (Infinite p (neg x))
      else if is_inf y then Inr (Infinite p (neg y))
      else Inr (rounded p (neg x \<and> neg y) (sval x + sval y)))"

text \<open>\<open>z.Sub(x, y)\<close>: panics on infinities of equal signs; \<open>-0 - +0 = -0\<close>.\<close>

definition Sub :: "nat \<Rightarrow> Float \<Rightarrow> Float \<Rightarrow> panic + Float" where
  "Sub zp x y =
     (let p = zprec zp x y in
      if is_inf x \<and> is_inf y \<and> neg x = neg y then Inl ErrNaN
      else if is_inf x then Inr (Infinite p (neg x))
      else if is_inf y then Inr (Infinite p (\<not> neg y))
      else Inr (rounded p (neg x \<and> \<not> neg y) (sval x - sval y)))"

text \<open>\<open>z.Mul(x, y)\<close>: panics on zero times infinity; the sign is the exclusive or.\<close>

definition Mul :: "nat \<Rightarrow> Float \<Rightarrow> Float \<Rightarrow> panic + Float" where
  "Mul zp x y =
     (let p = zprec zp x y; s = (neg x \<noteq> neg y) in
      if (is_zero x \<and> is_inf y) \<or> (is_inf x \<and> is_zero y) then Inl ErrNaN
      else if is_inf x \<or> is_inf y then Inr (Infinite p s)
      else Inr (Finite p s (round_to p (mag x * mag y))))"

text \<open>
  \<open>z.Quo(x, y)\<close>: panics when both operands are zero or both are infinite; a non-zero
  \<open>x\<close> divided by zero is an infinity.
\<close>

definition Quo :: "nat \<Rightarrow> Float \<Rightarrow> Float \<Rightarrow> panic + Float" where
  "Quo zp x y =
     (let p = zprec zp x y; s = (neg x \<noteq> neg y) in
      if (is_zero x \<and> is_zero y) \<or> (is_inf x \<and> is_inf y) then Inl ErrNaN
      else if is_zero x \<or> is_inf y then Inr (Finite p s 0)
      else if is_zero y \<or> is_inf x then Inr (Infinite p s)
      else Inr (Finite p s (round_to p (mag x / mag y))))"

text \<open>
  \<open>z.Neg(x)\<close> is \<open>z.Set(x)\<close> with the sign flipped. \<open>Set\<close> copies \<open>x\<close>; a fresh
  receiver takes the precision of \<open>x\<close>, and the copy is rounded only when the precision
  of the receiver is smaller than that of \<open>x\<close>.
\<close>

definition Neg :: "nat \<Rightarrow> Float \<Rightarrow> Float" where
  "Neg zp x =
     (let p = (if zp = 0 then prec x else zp) in
      case x of Finite q s a \<Rightarrow> Finite p (\<not> s) (if p < q then round_to p a else a)
              | Infinite _ s \<Rightarrow> Infinite p (\<not> s))"

text \<open>
  \<open>z.SetInt(i)\<close>: a fresh receiver takes the precision \<open>max(i.BitLen(), 64)\<close>, which
  holds \<open>i\<close> exactly.
\<close>

definition SetInt :: "nat \<Rightarrow> int \<Rightarrow> Float" where
  "SetInt zp i =
     (let p = (if zp = 0 then max (nat (bitlen \<bar>i\<bar>)) 64 else zp)
      in Finite p (i < 0) (round_to p (of_int \<bar>i\<bar>)))"

text \<open>
  \<open>big.NewFloat(float64(n))\<close> for a Go \<open>int\<close> \<open>n\<close>: the conversion to \<open>float64\<close>
  rounds to 53 bits, to nearest even, and \<open>NewFloat\<close> gives precision 53.
\<close>

definition NewFloat :: "int \<Rightarrow> Float" where
  "NewFloat n = Finite 53 (n < 0) (round_to 53 (of_int \<bar>n\<bar>))"

text \<open>
  \<open>x.Int64()\<close>: truncation towards zero, saturated to the range of \<open>int64\<close>; an
  infinity gives the nearest bound.
\<close>

definition MaxInt64 :: int where
  "MaxInt64 = 2 ^ 63 - 1"

definition MinInt64 :: int where
  "MinInt64 = - (2 ^ 63)"

definition Int64 :: "Float \<Rightarrow> int" where
  "Int64 x =
     (case x of
        Infinite _ s \<Rightarrow> (if s then MinInt64 else MaxInt64)
      | Finite _ s a \<Rightarrow> (if s then max MinInt64 (- \<lfloor>a\<rfloor>) else min MaxInt64 \<lfloor>a\<rfloor>))"

section \<open>The regression engine\<close>

text \<open>
  \<open>mean\<close>: the accumulator is \<open>big.NewFloat(0.0)\<close>, of precision 53, and is the
  receiver of every addition and of the final division by the length.
\<close>

fun mean_loop :: "Float \<Rightarrow> int list \<Rightarrow> panic + Float" where
  "mean_loop acc [] = Inr acc"
| "mean_loop acc (v # vs) =
     (case Add (prec acc) acc (SetInt 0 v) of
        Inl e \<Rightarrow> Inl e
      | Inr acc' \<Rightarrow> mean_loop acc' vs)"

definition mean :: "int list \<Rightarrow> panic + Float" where
  "mean values =
     (case mean_loop (NewFloat 0) values of
        Inl e \<Rightarrow> Inl e
      | Inr s \<Rightarrow> Quo (prec s) s (NewFloat (int (length values))))"

text \<open>
  \<open>covariance\<close>: the loop runs over the indices of \<open>x\<close> and reads \<open>y[i]\<close>, which
  panics when \<open>y\<close> is shorter. Each term is held in a fresh float set from the integer;
  the product has a fresh receiver; the accumulator has precision 53.
\<close>

fun covariance_loop :: "Float \<Rightarrow> int list \<Rightarrow> int list \<Rightarrow> Float \<Rightarrow> Float \<Rightarrow> panic + Float" where
  "covariance_loop covar [] ys meanX meanY = Inr covar"
| "covariance_loop covar (x # xs) ys meanX meanY =
     (let tx = SetInt 0 x in
      case Sub (prec tx) tx meanX of
        Inl e \<Rightarrow> Inl e
      | Inr termX \<Rightarrow>
         (case ys of
            [] \<Rightarrow> Inl IndexOutOfRange
          | y # ys' \<Rightarrow>
             (let ty = SetInt 0 y in
              case Sub (prec ty) ty meanY of
                Inl e \<Rightarrow> Inl e
              | Inr termY \<Rightarrow>
                 (case Mul 0 termX termY of
                    Inl e \<Rightarrow> Inl e
                  | Inr termXY \<Rightarrow>
                     (case Add (prec covar) covar termXY of
                        Inl e \<Rightarrow> Inl e
                      | Inr covar' \<Rightarrow> covariance_loop covar' xs ys' meanX meanY)))))"

definition covariance :: "int list \<Rightarrow> int list \<Rightarrow> Float \<Rightarrow> Float \<Rightarrow> panic + Float" where
  "covariance x y meanX meanY = covariance_loop (NewFloat 0) x y meanX meanY"

fun variance_loop :: "Float \<Rightarrow> int list \<Rightarrow> Float \<Rightarrow> panic + Float" where
  "variance_loop var [] meanValue = Inr var"
| "variance_loop var (v # vs) meanValue =
     (let t = SetInt 0 v in
      case Sub (prec t) t meanValue of
        Inl e \<Rightarrow> Inl e
      | Inr d \<Rightarrow>
         (case Mul (prec d) d d of
            Inl e \<Rightarrow> Inl e
          | Inr sq \<Rightarrow>
             (case Add (prec var) var sq of
                Inl e \<Rightarrow> Inl e
              | Inr var' \<Rightarrow> variance_loop var' vs meanValue)))"

definition variance :: "int list \<Rightarrow> Float \<Rightarrow> panic + Float" where
  "variance values meanValue = variance_loop (NewFloat 0) values meanValue"

text \<open>
  \<open>coefficients\<close> returns the intercept \<open>b0\<close>, the slope \<open>b1\<close> and the zero crossing
  \<open>w\<close>, in this order. Neither division is guarded.
\<close>

definition coefficients :: "int list \<Rightarrow> int list \<Rightarrow> panic + (Float \<times> Float \<times> Float)" where
  "coefficients predVars target =
     (case mean predVars of Inl e \<Rightarrow> Inl e | Inr meanX \<Rightarrow>
     (case mean target of Inl e \<Rightarrow> Inl e | Inr meanY \<Rightarrow>
     (case covariance predVars target meanX meanY of Inl e \<Rightarrow> Inl e | Inr cov \<Rightarrow>
     (case variance predVars meanX of Inl e \<Rightarrow> Inl e | Inr var \<Rightarrow>
     (case Quo (prec cov) cov var of Inl e \<Rightarrow> Inl e | Inr b1 \<Rightarrow>
     (case Mul (prec meanX) meanX b1 of Inl e \<Rightarrow> Inl e | Inr mxb \<Rightarrow>
     (case Sub 0 meanY mxb of Inl e \<Rightarrow> Inl e | Inr b0 \<Rightarrow>
     (let w0 = Neg 0 b0 in
      case Quo (prec w0) w0 b1 of Inl e \<Rightarrow> Inl e | Inr w \<Rightarrow>
      Inr (b0, b1, w)))))))))"

section \<open>The recursive model index\<close>

text \<open>
  A node is a linear model \<open>m * x + b\<close> with its zero crossing \<open>w\<close>. The tree keeps
  its nodes in one array of pointers per layer; a slot that was never assigned is nil
  (\<open>None\<close>). Go's \<open>int\<close> is modelled by \<open>int\<close>: every \<open>int\<close> of the program is a
  length or an index of an allocated slice, or bounded by one (layer sizes and positions
  are below \<open>width ^ depth\<close>), so none of them wraps around on a tree that fits in
  memory. Key lists are shorter than \<open>2^53\<close>, so the conversions of lengths and indices
  to \<open>float64\<close> in \<open>buildRecursive\<close> are exact.
\<close>

record Node =
  m :: Float
  b :: Float
  w :: Float

record RMI =
  width :: int
  depth :: int
  root :: "Node option"
  nodes :: "Node option list list"
  maxIndex :: int

text \<open>
  \<open>sort.SliceIsSorted\<close> walks down from the last index and stops at the first index
  whose element is less than its predecessor.
\<close>

fun SliceIsSorted_loop :: "int list \<Rightarrow> nat \<Rightarrow> bool" where
  "SliceIsSorted_loop values 0 = True"
| "SliceIsSorted_loop values (Suc i) =
     (if values ! Suc i < values ! i then False else SliceIsSorted_loop values i)"

definition SliceIsSorted :: "int list \<Rightarrow> bool" where
  "SliceIsSorted values = SliceIsSorted_loop values (length values - 1)"

text \<open>
  The allocation of the layers (lines 60 to 65): \<open>make\<close> panics on a negative length.
\<close>

fun makeLayers :: "nat \<Rightarrow> int \<Rightarrow> int \<Rightarrow> panic + Node option list list" where
  "makeLayers 0 layerSize wd = Inr []"
| "makeLayers (Suc k) layerSize wd =
     (if layerSize < 0 then Inl MakeSliceLen
      else case makeLayers k (layerSize * wd) wd of
             Inl e \<Rightarrow> Inl e
           | Inr ls \<Rightarrow> Inr (replicate (nat layerSize) None # ls))"

text \<open>
  The slice expression \<open>xs[lo:hi]\<close>. Go checks \<open>hi\<close> against the capacity; all the
  slices of this program are cut out of slices whose capacity ends with their length or
  later, and \<open>buildRecursive\<close> never asks for more than the length.
\<close>

definition cut :: "'a list \<Rightarrow> int \<Rightarrow> int \<Rightarrow> 'a list" where
  "cut xs lo hi = take (nat hi - nat lo) (drop (nat lo) xs)"

definition slice :: "'a list \<Rightarrow> int \<Rightarrow> int \<Rightarrow> panic + 'a list" where
  "slice xs lo hi =
     (if 0 \<le> lo \<and> lo \<le> hi \<and> hi \<le> int (length xs) then Inr (cut xs lo hi)
      else Inl SliceBounds)"

text \<open>
  The model of one node (lines 149 to 164): a regression over at least two samples,
  else slope and zero crossing zero and the offset as intercept.
\<close>

definition fitNode :: "int list \<Rightarrow> int list \<Rightarrow> int \<Rightarrow> panic + Node" where
  "fitNode values indices offset =
     (if 2 \<le> length indices then
        (case coefficients values indices of
           Inl e \<Rightarrow> Inl e
         | Inr (b0, b1, w0) \<Rightarrow> Inr \<lparr>m = b1, b = b0, w = w0\<rparr>)
      else Inr \<lparr>m = NewFloat 0, b = SetInt 0 offset, w = NewFloat 0\<rparr>)"

text \<open>
  The pieces of the loop body of \<open>buildRecursive\<close>, for a parent range of \<open>n\<close>
  indices. Lines 183 to 188 bring the bounds into range:
\<close>

definition clampLR :: "int \<Rightarrow> int \<Rightarrow> int \<Rightarrow> int \<times> int" where
  "clampLR n leftIndex rightIndex =
     (if rightIndex \<le> 0 then (0, 0)
      else if n \<le> rightIndex then (leftIndex, n - 1)
      else (leftIndex, rightIndex))"

text \<open>
  Lines 192 to 195: the child's indices and the offset handed on. A non-empty sub-range
  sets the offset to its first rank; an empty one leaves it as it is.
\<close>

definition subRange :: "int list \<Rightarrow> int \<Rightarrow> int \<Rightarrow> int \<Rightarrow> panic + (int list \<times> int)" where
  "subRange indices offset leftIndex rightIndex =
     (if leftIndex \<noteq> rightIndex then
        (case slice indices leftIndex rightIndex of
           Inl e \<Rightarrow> Inl e
         | Inr [] \<Rightarrow> Inl IndexOutOfRange
         | Inr (r # rs) \<Rightarrow> Inr (r # rs, r))
      else Inr ([], offset))"

text \<open>Line 205: the right bound of the next child.\<close>

definition nextRight :: "int \<Rightarrow> int \<Rightarrow> int \<Rightarrow> int" where
  "nextRight n rangeSize rightIndex = max 0 (min (rightIndex + rangeSize) n - 1)"

text \<open>
  \<open>buildRecursive\<close> assigns the node to its slot (a bounds check on the layer and on the
  position), fits it, and unless it is on the leaf layer loops over \<open>width\<close> children.
  The fields \<open>width\<close> and \<open>depth\<close> of the tree are not written during the build and
  are passed as \<open>wd\<close> and \<open>dp\<close>; the layered array is threaded through the calls.
  \<open>rmi.nodes\<close> has exactly \<open>depth\<close> layers when \<open>buildRecursive\<close> runs (line 60), so
  the bounds check of the layer is also written as \<open>currentDepth < dp\<close>.
  \<open>buildChildren\<close> is the loop of lines 177 to 206, with \<open>currentDepth\<close> already
  incremented, \<open>i\<close> the loop counter and \<open>leftIndex\<close>, \<open>rightIndex\<close>, \<open>offset\<close> the
  running variables. \<open>rangeSize\<close> (line 171) is the quotient of two \<open>float64\<close> numbers
  converted to \<open>int\<close>: for a positive width and a length below \<open>2^53\<close> this is the
  integer quotient \<open>length div width\<close>; for a width of 0 or less the loop does not run
  and the value is not used. The \<open>math.Max\<close> and \<open>math.Min\<close> of lines 175 and 205 are
  exact on these integers.
\<close>

function buildRecursive ::
    "int \<Rightarrow> int \<Rightarrow> Node option list list \<Rightarrow> int list \<Rightarrow> int list \<Rightarrow> int \<Rightarrow> nat \<Rightarrow> nat
      \<Rightarrow> panic + Node option list list"
  and buildChildren ::
    "int \<Rightarrow> int \<Rightarrow> Node option list list \<Rightarrow> int list \<Rightarrow> int list \<Rightarrow> int \<Rightarrow> nat \<Rightarrow> nat
      \<Rightarrow> int \<Rightarrow> nat \<Rightarrow> int \<Rightarrow> int \<Rightarrow> panic + Node option list list"
where
  "buildRecursive wd dp ns values indices offset currentDepth locationInLayer =
     (if \<not> (int currentDepth < dp \<and> currentDepth < length ns
             \<and> locationInLayer < length (ns ! currentDepth))
      then Inl IndexOutOfRange
      else
        (case fitNode values indices offset of
           Inl e \<Rightarrow> Inl e
         | Inr node \<Rightarrow>
            (let ns1 = ns[currentDepth := (ns ! currentDepth)[locationInLayer := Some node]] in
             if int currentDepth \<noteq> dp - 1 then
               (let rangeSize = int (length values) div wd in
                buildChildren wd dp ns1 values indices offset (Suc currentDepth)
                  locationInLayer rangeSize 0 0 (max 0 rangeSize))
             else Inr ns1)))"
| "buildChildren wd dp ns values indices offset currentDepth locationInLayer rangeSize i
       leftIndex rightIndex =
     (if int i < wd then
        (let (leftIndex1, rightIndex1) = clampLR (int (length indices)) leftIndex rightIndex in
         case subRange indices offset leftIndex1 rightIndex1 of
           Inl e \<Rightarrow> Inl e
         | Inr (subIndices, offset1) \<Rightarrow>
            (case slice values leftIndex1 rightIndex1 of
               Inl e \<Rightarrow> Inl e
             | Inr subValues \<Rightarrow>
                (case buildRecursive wd dp ns subValues subIndices offset1 currentDepth
                        (locationInLayer * nat wd + i) of
                   Inl e \<Rightarrow> Inl e
                 | Inr ns1 \<Rightarrow>
                    buildChildren wd dp ns1 values indices offset1 currentDepth
                      locationInLayer rangeSize (Suc i) rightIndex1
                      (nextRight (int (length indices)) rangeSize rightIndex1))))
      else Inr ns)"
  by pat_completeness auto
termination
  by (relation "measures
        [\<lambda>x. case x of
           Inl (wd, dp, ns, values, indices, offset, d, loc) \<Rightarrow> nat (dp - int d)
         | Inr (wd, dp, ns, values, indices, offset, d, loc, rangeSize, i, l, r) \<Rightarrow>
             nat (dp - int d),
         \<lambda>x. case x of
           Inl (wd, dp, ns, values, indices, offset, d, loc) \<Rightarrow> 0
         | Inr (wd, dp, ns, values, indices, offset, d, loc, rangeSize, i, l, r) \<Rightarrow>
             Suc (nat (wd - int i))]") auto

declare buildRecursive.simps [simp del] buildChildren.simps [simp del]

text \<open>
  \<open>NewRMI\<close>: the sortedness check, the ranks \<open>0, 1, ...\<close>, the allocation of \<open>depth\<close>
  layers (\<open>make\<close> panics on a negative \<open>depth\<close>), and the build from the root. The
  root pointer returned by \<open>buildRecursive\<close> is the one it stored in slot \<open>(0, 0)\<close>.
\<close>

definition NewRMI :: "int list \<Rightarrow> int \<Rightarrow> int \<Rightarrow> failure + RMI" where
  "NewRMI values wd dp =
     (if \<not> SliceIsSorted values then Inl InputError
      else
        (let indices = map int [0..<length values] in
         if dp < 0 then Inl (Panic MakeSliceLen)
         else
           (case makeLayers (nat dp) 1 wd of
              Inl e \<Rightarrow> Inl (Panic e)
            | Inr ns \<Rightarrow>
               (case buildRecursive wd dp ns values indices 0 0 0 of
                  Inl e \<Rightarrow> Inl (Panic e)
                | Inr ns1 \<Rightarrow>
                   Inr \<lparr>width = wd, depth = dp, root = ns1 ! 0 ! 0, nodes = ns1,
                        maxIndex = int (length values) - 1\<rparr>))))"

text \<open>
  \<open>GetIndex\<close>. The loop variables are the accumulated \<open>width\<close> (a float of precision
  53), the current node and \<open>nextLayer\<close>; \<open>evals\<close> counts the node models evaluated
  so far and is returned next to the outcome. \<open>res\<close> is \<open>big.NewFloat(0)\<close>, of
  precision 53, and is the receiver of every operation on the prediction. The loop ends
  on the leaf layer, or with a panic: reading \<open>rmi.nodes[nextLayer]\<close> beyond the last
  layer is out of range.
\<close>

definition predict :: "Node \<Rightarrow> int \<Rightarrow> panic + Float" where
  "predict node val =
     (case Mul 53 (m node) (SetInt 0 val) of
        Inl e \<Rightarrow> Inl e
      | Inr res \<Rightarrow> Add 53 res (b node))"

function GetIndex_loop ::
    "RMI \<Rightarrow> int \<Rightarrow> Float \<Rightarrow> Node option \<Rightarrow> nat \<Rightarrow> nat \<Rightarrow> nat \<times> (panic + int)" where
  "GetIndex_loop rmi val scale currentNode nextLayer evals =
     (case currentNode of
        None \<Rightarrow> (evals, Inl NilDeref)
      | Some node \<Rightarrow>
         (if int nextLayer = depth rmi then
            (case predict node val of
               Inl e \<Rightarrow> (Suc evals, Inl e)
             | Inr res \<Rightarrow>
                (let nextIndex = Int64 res in
                 (Suc evals,
                  Inr (if maxIndex rmi < nextIndex then maxIndex rmi
                       else if nextIndex < 0 then 0 else nextIndex))))
          else
            (case predict node val of
               Inl e \<Rightarrow> (Suc evals, Inl e)
             | Inr res \<Rightarrow>
                (case Quo 53 res (NewFloat (maxIndex rmi)) of
                   Inl e \<Rightarrow> (Suc evals, Inl e)
                 | Inr res1 \<Rightarrow>
                    (case Mul 53 res1 scale of
                       Inl e \<Rightarrow> (Suc evals, Inl e)
                     | Inr res2 \<Rightarrow>
                        (let nextIndex = Int64 res2 in
                         if length (nodes rmi) \<le> nextLayer then (Suc evals, Inl IndexOutOfRange)
                         else
                           (let layer = nodes rmi ! nextLayer;
                                nextIndex1 =
                                  (if nextIndex < 0 then 0
                                   else if int (length layer) \<le> nextIndex
                                        then int (length layer) - 1
                                        else nextIndex) in
                            if nextIndex1 < 0 \<or> int (length layer) \<le> nextIndex1
                            then (Suc evals, Inl IndexOutOfRange)
                            else
                              (case Mul (prec scale) scale (NewFloat (width rmi)) of
                                 Inl e \<Rightarrow> (Suc evals, Inl e)
                               | Inr scale1 \<Rightarrow>
                                  GetIndex_loop rmi val scale1 (layer ! nat nextIndex1)
                                    (Suc nextLayer) (Suc evals)))))))))"
  by pat_completeness auto
termination
  by (relation "measure (\<lambda>(rmi, val, scale, currentNode, nextLayer, evals).
        length (nodes rmi) - nextLayer)") auto

declare GetIndex_loop.simps [simp del]

definition GetIndex_run :: "RMI \<Rightarrow> int \<Rightarrow> nat \<times> (panic + int)" where
  "GetIndex_run rmi val = GetIndex_loop rmi val (NewFloat (width rmi)) (root rmi) 1 0"

definition GetIndex :: "RMI \<Rightarrow> int \<Rightarrow> panic + int" where
  "GetIndex rmi val = snd (GetIndex_run rmi val)"

definition GetIndex_evals :: "RMI \<Rightarrow> int \<Rightarrow> nat" where
  "GetIndex_evals rmi val = fst (GetIndex_run rmi val)"

section \<open>Auxiliary notions\<close>

text \<open>
  A float that is finite, with a non-negative magnitude and a positive precision, as
  every operation produces from such operands; non-negative and positive ones.
\<close>

definition fin :: "Float \<Rightarrow> bool" where
  "fin x \<longleftrightarrow> \<not> is_inf x \<and> 0 \<le> mag x \<and> 0 < prec x"

definition nneg :: "Float \<Rightarrow> bool" where
  "nneg x \<longleftrightarrow> fin x \<and> \<not> neg x"

definition pos :: "Float \<Rightarrow> bool" where
  "pos x \<longleftrightarrow> fin x \<and> \<not> neg x \<and> 0 < mag x"

text \<open>
  What the loop of \<open>buildRecursive\<close> hands to its children, without the recursive
  calls: the keys, the ranks and the offset of each child, for \<open>k\<close> more iterations
  from the running bounds.
\<close>

type_synonym args = "int list \<times> int list \<times> int"

fun children_loop :: "nat \<Rightarrow> int list \<Rightarrow> int list \<Rightarrow> int \<Rightarrow> int \<Rightarrow> int \<Rightarrow> int \<Rightarrow> args list" where
  "children_loop 0 values indices offset rangeSize leftIndex rightIndex = []"
| "children_loop (Suc k) values indices offset rangeSize leftIndex rightIndex =
     (let (leftIndex1, rightIndex1) = clampLR (int (length indices)) leftIndex rightIndex;
          subIndices = (if leftIndex1 \<noteq> rightIndex1 then cut indices leftIndex1 rightIndex1
                        else []);
          offset1 = (case subIndices of [] \<Rightarrow> offset | r # rs \<Rightarrow> r)
      in (cut values leftIndex1 rightIndex1, subIndices, offset1)
         # children_loop k values indices offset1 rangeSize rightIndex1
             (nextRight (int (length indices)) rangeSize rightIndex1))"

definition childArgs :: "int \<Rightarrow> args \<Rightarrow> args list" where
  "childArgs wd a =
     (case a of (values, indices, offset) \<Rightarrow>
        (let rangeSize = int (length values) div wd
         in children_loop (nat wd) values indices offset rangeSize 0 (max 0 rangeSize)))"

text \<open>
  The keys, ranks and offset of the node in slot \<open>(layer, position)\<close>: the root has
  all keys, all ranks and offset 0; the node at position \<open>p\<close> of the next layer is
  child number \<open>p mod width\<close> of the node at position \<open>p div width\<close>.
\<close>

fun slotArgs :: "int \<Rightarrow> int list \<Rightarrow> nat \<Rightarrow> nat \<Rightarrow> args" where
  "slotArgs wd values 0 p = (values, map int [0..<length values], 0)"
| "slotArgs wd values (Suc l) p =
     childArgs wd (slotArgs wd values l (p div nat wd)) ! (p mod nat wd)"

text \<open>
  The same from a node downwards: the descendant \<open>k\<close> layers below, at position \<open>q\<close>
  among the descendants of that layer.
\<close>

fun subArgs :: "int \<Rightarrow> args \<Rightarrow> nat \<Rightarrow> nat \<Rightarrow> args" where
  "subArgs wd a 0 q = a"
| "subArgs wd a (Suc k) q =
     subArgs wd (childArgs wd a ! (q div nat wd ^ k)) k (q mod nat wd ^ k)"

definition fitArgs :: "args \<Rightarrow> panic + Node" where
  "fitArgs a = (case a of (values, indices, offset) \<Rightarrow> fitNode values indices offset)"

text \<open>
  The slots that a build from layer \<open>d\<close> over the positions \<open>lo\<close> up to \<open>hi - 1\<close>
  of that layer writes: those positions and all their descendants down to the leaf layer.
  \<open>builds\<close> relates the layered array before and after such a build: same shape, every
  covered slot holds the fitted node of the arguments \<open>c\<close> gives for it, every other
  slot is untouched.
\<close>

definition covers :: "int \<Rightarrow> int \<Rightarrow> nat \<Rightarrow> nat \<Rightarrow> nat \<Rightarrow> nat \<Rightarrow> nat \<Rightarrow> bool" where
  "covers wd dp d lo hi l p \<longleftrightarrow>
     d \<le> l \<and> int l < dp \<and> lo * nat wd ^ (l - d) \<le> p \<and> p < hi * nat wd ^ (l - d)"

definition builds ::
    "int \<Rightarrow> int \<Rightarrow> Node option list list \<Rightarrow> Node option list list \<Rightarrow> nat \<Rightarrow> nat \<Rightarrow> nat
      \<Rightarrow> (nat \<Rightarrow> nat \<Rightarrow> args) \<Rightarrow> bool" where
  "builds wd dp ns ns' d lo hi c \<longleftrightarrow>
     length ns' = length ns
     \<and> (\<forall>l<length ns. length (ns' ! l) = length (ns ! l))
     \<and> (\<forall>l p. covers wd dp d lo hi l p \<longrightarrow>
           l < length ns \<and> p < length (ns ! l)
           \<and> (\<exists>node. fitArgs (c l p) = Inr node \<and> ns' ! l ! p = Some node))
     \<and> (\<forall>l p. l < length ns \<and> p < length (ns ! l) \<and> \<not> covers wd dp d lo hi l p \<longrightarrow>
           ns' ! l ! p = ns ! l ! p)"

definition store :: "Node option list list \<Rightarrow> nat \<Rightarrow> nat \<Rightarrow> Node \<Rightarrow> Node option list list" where
  "store ns d loc node = ns[d := (ns ! d)[loc := Some node]]"

text \<open>
  The invariant of the running bounds of the loop of \<open>buildRecursive\<close>, over a parent
  range of \<open>n\<close> samples: it keeps every slice expression of the loop within bounds.
\<close>

definition carveInv :: "int \<Rightarrow> int \<Rightarrow> int \<Rightarrow> int \<Rightarrow> bool" where
  "carveInv n rangeSize leftIndex rightIndex \<longleftrightarrow>
     0 \<le> leftIndex
     \<and> (rightIndex \<le> 0 \<or> (1 \<le> rangeSize \<and> leftIndex \<le> rightIndex \<and> leftIndex \<le> n - 1))"

text \<open>
  The bounds of the children alone: the pairs \<open>(leftIndex, rightIndex)\<close> with which the
  loop of \<open>buildRecursive\<close> slices \<open>values\<close> and \<open>indices\<close> (lines 183 to 188 and 204 to
  205), for \<open>k\<close> more iterations from the running bounds over a parent range of \<open>n\<close>
  samples; \<open>childBounds\<close> is the whole loop from its initial bounds. \<open>stepInv\<close> adds to
  the invariant of the running bounds that the next sub-range is no longer than
  \<open>rangeSize\<close>.
\<close>

fun carve :: "nat \<Rightarrow> int \<Rightarrow> int \<Rightarrow> int \<Rightarrow> int \<Rightarrow> (int \<times> int) list" where
  "carve 0 n rangeSize leftIndex rightIndex = []"
| "carve (Suc k) n rangeSize leftIndex rightIndex =
     (let (leftIndex1, rightIndex1) = clampLR n leftIndex rightIndex
      in (leftIndex1, rightIndex1)
         # carve k n rangeSize rightIndex1 (nextRight n rangeSize rightIndex1))"

definition childBounds :: "int \<Rightarrow> nat \<Rightarrow> (int \<times> int) list" where
  "childBounds wd n =
     (let rangeSize = int n div wd in carve (nat wd) (int n) rangeSize 0 (max 0 rangeSize))"

definition stepInv :: "int \<Rightarrow> int \<Rightarrow> int \<Rightarrow> int \<Rightarrow> bool" where
  "stepInv n rangeSize leftIndex rightIndex \<longleftrightarrow>
     carveInv n rangeSize leftIndex rightIndex \<and> 0 \<le> rangeSize
     \<and> rightIndex - leftIndex \<le> rangeSize"

definition clampTo :: "int \<Rightarrow> int \<Rightarrow> int \<Rightarrow> int" where
  "clampTo lo hi x = (if x < lo then lo else if hi < x then hi else x)"

text \<open>The model of a node without samples whose offset is 0.\<close>

definition zeroNode :: Node where
  "zeroNode = \<lparr>m = NewFloat 0, b = SetInt 0 0, w = NewFloat 0\<rparr>"

section \<open>The specification, on numbers\<close>

text \<open>
  The specification describes the regression and the traversal on numbers. The
  definitions of this section follow its words and work on rationals; they have no
  precision fields, no signed zeros, no infinities and no panics. The arithmetic is the
  one the claims refer to, that of the code: the exact result of an operation is rounded
  to the nearest number of \<open>p\<close> mantissa bits, ties to even. Sums, quotients and the
  products of the models have 53 bits; a key enters with all its bits (64, or more when
  it is longer), and so do its deviation from a mean and the products of deviations.
\<close>

definition nearest :: "nat \<Rightarrow> rat \<Rightarrow> rat" where
  "nearest p v = (if v < 0 then - round_to p (- v) else round_to p v)"

definition keyBits :: "int \<Rightarrow> nat" where
  "keyBits k = max (nat (bitlen \<bar>k\<bar>)) 64"

text \<open>
  The mean is the sum divided by the count (the count as a \<open>float64\<close>); the covariance
  is the sum of the products of the deviations of key and rank from their means, the
  variance the sum of the squared deviations of the keys (neither is divided by the
  count).
\<close>

definition mean_spec :: "int list \<Rightarrow> rat" where
  "mean_spec xs =
     nearest 53 (foldl (\<lambda>s x. nearest 53 (s + of_int x)) 0 xs
                 / nearest 53 (of_int (int (length xs))))"

definition deviation :: "rat \<Rightarrow> int \<Rightarrow> rat" where
  "deviation mu x = nearest (keyBits x) (of_int x - mu)"

definition covariance_spec :: "int list \<Rightarrow> int list \<Rightarrow> rat \<Rightarrow> rat \<Rightarrow> rat" where
  "covariance_spec xs ys meanX meanY =
     foldl (\<lambda>s (x, y). nearest 53
              (s + nearest (max (keyBits x) (keyBits y)) (deviation meanX x * deviation meanY y)))
       0 (zip xs ys)"

definition variance_spec :: "int list \<Rightarrow> rat \<Rightarrow> rat" where
  "variance_spec xs meanX =
     foldl (\<lambda>s x. nearest 53 (s + nearest (keyBits x) (deviation meanX x * deviation meanX x)))
       0 xs"

text \<open>
  The fit of section 4.1: \<open>slope = covariance(keys, ranks) / variance(keys, meanX)\<close>,
  \<open>intercept = meanY - meanX * slope\<close>, \<open>zeroCrossing = - intercept / slope\<close>.
\<close>

definition slope_spec :: "int list \<Rightarrow> int list \<Rightarrow> rat" where
  "slope_spec keys ranks =
     nearest 53 (covariance_spec keys ranks (mean_spec keys) (mean_spec ranks)
                 / variance_spec keys (mean_spec keys))"

definition intercept_spec :: "int list \<Rightarrow> int list \<Rightarrow> rat" where
  "intercept_spec keys ranks =
     nearest 53 (mean_spec ranks - nearest 53 (mean_spec keys * slope_spec keys ranks))"

definition zeroCrossing_spec :: "int list \<Rightarrow> int list \<Rightarrow> rat" where
  "zeroCrossing_spec keys ranks =
     nearest 53 (- intercept_spec keys ranks / slope_spec keys ranks)"

text \<open>
  The traversal of section 4.3. The model of a node predicts \<open>p = m * key + b\<close>. From the
  root in slot \<open>(0, 0)\<close>, on each of the \<open>depth - 1\<close> layers above the leaves: the
  prediction is divided by \<open>maxIndex\<close> and multiplied by the scale, which is
  \<open>width ^ (layer + 1)\<close> (it starts at \<open>width\<close> and is multiplied by \<open>width\<close> on each
  level); the child slot is the floor of the result, clamped into
  \<open>[0, width ^ (layer + 1) - 1]\<close>. On the leaf layer the prediction itself is floored
  and clamped into \<open>[0, maxIndex]\<close>. The result is \<open>None\<close> where the specification
  defines none: the division by a \<open>maxIndex\<close> of 0, or a slot without a node.
  \<open>k\<close> counts the layers still below.
\<close>

definition predict_spec :: "Node \<Rightarrow> int \<Rightarrow> rat" where
  "predict_spec node key = nearest 53 (nearest 53 (sval (m node) * of_int key) + sval (b node))"

fun traverse_spec :: "RMI \<Rightarrow> int \<Rightarrow> nat \<Rightarrow> nat \<Rightarrow> nat \<Rightarrow> int option" where
  "traverse_spec rmi key 0 layer position =
     (case nodes rmi ! layer ! position of
        None \<Rightarrow> None
      | Some node \<Rightarrow> Some (clampTo 0 (maxIndex rmi) \<lfloor>predict_spec node key\<rfloor>))"
| "traverse_spec rmi key (Suc k) layer position =
     (case nodes rmi ! layer ! position of
        None \<Rightarrow> None
      | Some node \<Rightarrow>
         (if maxIndex rmi = 0 then None
          else
            (let fraction = nearest 53 (predict_spec node key / of_int (maxIndex rmi));
                 scale = width rmi ^ Suc layer;
                 childIndex = \<lfloor>nearest 53 (fraction * of_int scale)\<rfloor>
             in traverse_spec rmi key k (Suc layer)
                  (nat (clampTo 0 (width rmi ^ Suc layer - 1) childIndex)))))"

definition GetIndex_spec :: "RMI \<Rightarrow> int \<Rightarrow> int option" where
  "GetIndex_spec rmi key = traverse_spec rmi key (nat (depth rmi) - 1) 0 0"

section \<open>The sortedness check\<close>

lemma SliceIsSorted_loop_iff:
  "SliceIsSorted_loop values n \<longleftrightarrow> (\<forall>i<n. \<not> values ! Suc i < values ! i)"
  by (induction n) (auto simp: less_Suc_eq)

lemma SliceIsSorted_iff:
  "SliceIsSorted values \<longleftrightarrow> \<not> (\<exists>i. Suc i < length values \<and> values ! Suc i < values ! i)"
  unfolding SliceIsSorted_def SliceIsSorted_loop_iff
  by (cases "values") auto

lemma SliceIsSorted_sorted: "SliceIsSorted values \<longleftrightarrow> sorted values"
  unfolding SliceIsSorted_iff sorted_iff_nth_Suc
  by (metis not_less)

text \<open>
  Claim C2. \<open>NewRMI\<close> returns the input error, and with it no tree, exactly when some
  adjacent pair of the input is out of order, whatever the rest of the build would have
  done; equivalently, exactly when the input is not sorted in non-decreasing order. An
  input with duplicates but no descent never gets this error.
\<close>

theorem NewRMI_InputError_iff:
  "(NewRMI values wd dp = Inl InputError
      \<longleftrightarrow> (\<exists>i. Suc i < length values \<and> values ! Suc i < values ! i))
   \<and> (NewRMI values wd dp = Inl InputError \<longleftrightarrow> \<not> sorted values)"
proof -
  have "NewRMI values wd dp = Inl InputError \<longleftrightarrow> \<not> SliceIsSorted values"
    by (simp add: NewRMI_def Let_def split: sum.splits)
  then show ?thesis
    using SliceIsSorted_iff [of "values"] SliceIsSorted_sorted [of "values"] by simp
qed

section \<open>Properties of the float arithmetic\<close>

lemma two_powi_diff: "(2::rat) powi (x - y) = 2 powi x / 2 powi y"
  by (rule power_int_diff) simp

lemma binexp_lower:
  assumes "0 < v"
  shows "2 powi (binexp v - 1) \<le> v"
proof -
  obtain a c where q: "quotient_of v = (a, c)"
    by (cases "quotient_of v")
  then have c: "0 < c" and v: "v = of_int a / of_int c"
    using quotient_of_denom_pos quotient_of_div by blast+
  with assms have a: "0 < a"
    by (simp add: zero_less_divide_iff)
  let ?k = "bitlen a - bitlen c"
  show ?thesis
  proof (cases "v < 2 powi ?k")
    case True
    have la: "1 \<le> bitlen a" and lc: "1 \<le> bitlen c"
      using a c by (simp_all add: bitlen_alt_def)
    have "(2::int) ^ nat (bitlen a - 1) \<le> a"
      using bitlen_bounds [OF a] by simp
    then have A: "(2::rat) ^ nat (bitlen a - 1) \<le> of_int a"
      by (metis of_int_le_iff of_int_numeral of_int_power)
    have "c < 2 ^ nat (bitlen c)"
      using bitlen_bounds [OF c] by simp
    then have C: "of_int c < (2::rat) ^ nat (bitlen c)"
      by (metis of_int_less_iff of_int_numeral of_int_power)
    have "?k - 1 = int (nat (bitlen a - 1)) - int (nat (bitlen c))"
      using la lc by simp
    then have "(2::rat) powi (?k - 1) = 2 powi int (nat (bitlen a - 1)) / 2 powi int (nat (bitlen c))"
      by (simp only: two_powi_diff)
    also have "\<dots> = 2 ^ nat (bitlen a - 1) / 2 ^ nat (bitlen c)"
      by (simp only: power_int_of_nat)
    also have "\<dots> \<le> of_int a / of_int c"
      using A C c a by (intro frac_le) auto
    finally show ?thesis
      using True q v by (simp add: binexp_def)
  next
    case False
    then show ?thesis
      using q by (simp add: binexp_def)
  qed
qed

lemma rne_ge_one: "1 \<le> x \<Longrightarrow> 1 \<le> rne x"
  by (auto simp: rne_def Let_def le_floor_iff)

lemma rne_nonneg: "0 \<le> x \<Longrightarrow> 0 \<le> rne x"
  by (auto simp: rne_def Let_def)

lemma round_to_zero [simp]: "round_to p 0 = 0"
  by (simp add: round_to_def)

lemma round_to_nonneg: "0 \<le> v \<Longrightarrow> 0 \<le> round_to p v"
  by (auto simp: round_to_def Let_def intro!: mult_nonneg_nonneg rne_nonneg divide_nonneg_pos)

lemma round_to_pos:
  assumes "0 < v" "0 < p"
  shows "0 < round_to p v"
proof -
  let ?u = "(2::rat) powi (binexp v - int p)"
  have u: "0 < ?u"
    by simp
  have "binexp v - int p = (binexp v - 1) - int (p - 1)"
    using assms(2) by simp
  then have "?u = 2 powi (binexp v - 1) / 2 powi int (p - 1)"
    by (simp only: two_powi_diff)
  also have "\<dots> = 2 powi (binexp v - 1) / 2 ^ (p - 1)"
    by (simp only: power_int_of_nat)
  also have "\<dots> \<le> 2 powi (binexp v - 1) / 1"
    by (intro divide_left_mono) auto
  also have "\<dots> \<le> v"
    using binexp_lower [OF assms(1)] by simp
  finally have "1 \<le> v / ?u"
    using u by (simp add: le_divide_eq)
  then have "1 \<le> rne (v / ?u)"
    by (rule rne_ge_one)
  then have "0 < (of_int (rne (v / ?u)) :: rat) * ?u"
    using u by (intro mult_pos_pos) auto
  then show ?thesis
    using assms by (simp add: round_to_def Let_def)
qed

lemma round_to_eq_0_iff: "0 \<le> v \<Longrightarrow> 0 < p \<Longrightarrow> round_to p v = 0 \<longleftrightarrow> v = 0"
  using round_to_pos [of v p] by (cases "v = 0") auto


lemma fin_Finite [simp]: "fin (Finite p s a) \<longleftrightarrow> 0 \<le> a \<and> 0 < p"
  by (simp add: fin_def is_inf_def)

lemma fin_Infinite [simp]: "\<not> fin (Infinite p s)"
  by (simp add: fin_def is_inf_def)

lemma fin_not_inf: "fin x \<Longrightarrow> \<not> is_inf x"
  by (simp add: fin_def)

lemma zprec_pos: "0 < prec x \<Longrightarrow> 0 < prec y \<Longrightarrow> 0 < zprec zp x y"
  by (simp add: zprec_def less_max_iff_disj)

lemma fin_rounded: "0 < p \<Longrightarrow> fin (rounded p z v)"
  by (simp add: rounded_def round_to_nonneg)

lemma fin_SetInt [simp]: "fin (SetInt 0 i)"
  by (simp add: SetInt_def Let_def round_to_nonneg)

lemma fin_NewFloat [simp]: "fin (NewFloat n)"
  by (simp add: NewFloat_def round_to_nonneg)

lemma prec_NewFloat [simp]: "prec (NewFloat n) = 53"
  by (simp add: NewFloat_def)

lemma Add_fin:
  assumes "fin x" "fin y"
  shows "Add zp x y = Inr (rounded (zprec zp x y) (neg x \<and> neg y) (sval x + sval y))"
  using assms by (simp add: Add_def fin_def)

lemma Sub_fin:
  assumes "fin x" "fin y"
  shows "Sub zp x y = Inr (rounded (zprec zp x y) (neg x \<and> \<not> neg y) (sval x - sval y))"
  using assms by (simp add: Sub_def fin_def)

lemma Mul_fin:
  assumes "fin x" "fin y"
  shows "Mul zp x y = Inr (Finite (zprec zp x y) (neg x \<noteq> neg y)
           (round_to (zprec zp x y) (mag x * mag y)))"
  using assms by (simp add: Mul_def fin_def Let_def is_zero_def is_inf_def split: Float.splits)

lemma Quo_fin:
  assumes "fin x" "fin y" "\<not> is_zero y"
  shows "Quo zp x y = Inr (Finite (zprec zp x y) (neg x \<noteq> neg y)
           (round_to (zprec zp x y) (mag x / mag y)))"
  using assms by (cases x; cases y) (auto simp: Quo_def fin_def is_zero_def is_inf_def Let_def)

lemma prec_rounded [simp]: "prec (rounded p z v) = p"
  by (simp add: rounded_def)

lemma fin_prec: "fin x \<Longrightarrow> 0 < prec x"
  by (simp add: fin_def)

lemma fin_mag: "fin x \<Longrightarrow> 0 \<le> mag x"
  by (simp add: fin_def)

lemma zprec_fin: "fin x \<Longrightarrow> fin y \<Longrightarrow> 0 < zprec zp x y"
  by (simp add: zprec_pos fin_prec)

lemma zprec_self: "fin x \<Longrightarrow> zprec (prec x) x y = prec x"
  by (simp add: zprec_def fin_def)

lemma Add_finE:
  assumes "fin x" "fin y"
  obtains z where "Add zp x y = Inr z" "fin z" "prec z = zprec zp x y"
  using assms by (simp add: Add_fin fin_rounded zprec_fin)

lemma Sub_finE:
  assumes "fin x" "fin y"
  obtains z where "Sub zp x y = Inr z" "fin z" "prec z = zprec zp x y"
  using assms by (simp add: Sub_fin fin_rounded zprec_fin)

lemma Mul_finE:
  assumes "fin x" "fin y"
  obtains z where "Mul zp x y = Inr z" "fin z" "prec z = zprec zp x y"
  using assms by (simp add: Mul_fin zprec_fin round_to_nonneg fin_mag)

lemma Quo_finE:
  assumes "fin x" "fin y" "\<not> is_zero y"
  obtains z where "Quo zp x y = Inr z" "fin z" "prec z = zprec zp x y"
  using assms by (simp add: Quo_fin zprec_fin round_to_nonneg fin_mag)

lemma mean_loop_fin:
  "fin acc \<Longrightarrow> \<exists>s. mean_loop acc vs = Inr s \<and> fin s \<and> prec s = prec acc"
proof (induction vs arbitrary: acc)
  case Nil
  then show ?case by simp
next
  case (Cons v vs)
  obtain a where a: "Add (prec acc) acc (SetInt 0 v) = Inr a" "fin a" "prec a = prec acc"
    using Add_finE [OF Cons.prems fin_SetInt, of "prec acc" v] zprec_self [OF Cons.prems]
    by metis
  from Cons.IH [OF a(2)] show ?case
    using a by simp
qed

lemma NewFloat_length_nonzero: "vs \<noteq> [] \<Longrightarrow> \<not> is_zero (NewFloat (int (length vs)))"
proof -
  assume "vs \<noteq> []"
  then have "0 < round_to 53 (of_int \<bar>int (length vs)\<bar>)"
    by (intro round_to_pos) auto
  then show ?thesis
    by (simp add: NewFloat_def is_zero_def)
qed

lemma mean_fin:
  assumes "vs \<noteq> []"
  shows "\<exists>mu. mean vs = Inr mu \<and> fin mu \<and> prec mu = 53"
proof -
  obtain s where s: "mean_loop (NewFloat 0) vs = Inr s" "fin s" "prec s = 53"
    using mean_loop_fin [of "NewFloat 0" vs] by auto
  obtain mu where "Quo (prec s) s (NewFloat (int (length vs))) = Inr mu" "fin mu"
      "prec mu = prec s"
    using Quo_finE [OF s(2) fin_NewFloat NewFloat_length_nonzero [OF assms], of "prec s"]
      zprec_self [OF s(2)] by metis
  then show ?thesis
    using s by (simp add: mean_def)
qed

lemma variance_loop_fin:
  "fin acc \<Longrightarrow> fin mu \<Longrightarrow> \<exists>s. variance_loop acc vs mu = Inr s \<and> fin s \<and> prec s = prec acc"
proof (induction vs arbitrary: acc)
  case Nil
  then show ?case by simp
next
  case (Cons v vs)
  obtain d where d: "Sub (prec (SetInt 0 v)) (SetInt 0 v) mu = Inr d" "fin d"
    using Sub_finE [OF fin_SetInt Cons.prems(2)] by metis
  obtain sq where sq: "Mul (prec d) d d = Inr sq" "fin sq"
    using Mul_finE [OF d(2) d(2)] by metis
  obtain a where a: "Add (prec acc) acc sq = Inr a" "fin a" "prec a = prec acc"
    using Add_finE [OF Cons.prems(1) sq(2), of "prec acc"] zprec_self [OF Cons.prems(1)]
    by metis
  from Cons.IH [OF a(2) Cons.prems(2)] show ?case
    using d sq a by (simp add: Let_def)
qed

lemma covariance_loop_fin:
  "fin acc \<Longrightarrow> fin mx \<Longrightarrow> fin my \<Longrightarrow> length xs \<le> length ys
    \<Longrightarrow> \<exists>s. covariance_loop acc xs ys mx my = Inr s \<and> fin s \<and> prec s = prec acc"
proof (induction xs arbitrary: acc ys)
  case Nil
  then show ?case by simp
next
  case (Cons x xs)
  then obtain y ys' where ys: "ys = y # ys'" "length xs \<le> length ys'"
    by (cases ys) auto
  obtain dx where dx: "Sub (prec (SetInt 0 x)) (SetInt 0 x) mx = Inr dx" "fin dx"
    using Sub_finE [OF fin_SetInt Cons.prems(2)] by metis
  obtain dy where dy: "Sub (prec (SetInt 0 y)) (SetInt 0 y) my = Inr dy" "fin dy"
    using Sub_finE [OF fin_SetInt Cons.prems(3)] by metis
  obtain xy where xy: "Mul 0 dx dy = Inr xy" "fin xy"
    using Mul_finE [OF dx(2) dy(2)] by metis
  obtain a where a: "Add (prec acc) acc xy = Inr a" "fin a" "prec a = prec acc"
    using Add_finE [OF Cons.prems(1) xy(2), of "prec acc"] zprec_self [OF Cons.prems(1)]
    by metis
  from Cons.IH [OF a(2) Cons.prems(2,3) ys(2)] show ?case
    using dx dy xy a ys by (simp add: Let_def)
qed


lemma pos_nneg: "pos x \<Longrightarrow> nneg x"
  by (simp add: pos_def nneg_def)

lemma nneg_NewFloat: "0 \<le> n \<Longrightarrow> nneg (NewFloat n)"
  by (simp add: nneg_def) (simp add: NewFloat_def)

lemma Add_nneg:
  assumes "nneg x" "0 \<le> v"
  shows "\<exists>z. Add (prec x) x (SetInt 0 v) = Inr z \<and> nneg z \<and> prec z = prec x
           \<and> (pos x \<or> 0 < v \<longrightarrow> pos z)"
proof -
  let ?t = "SetInt 0 v"
  have x: "fin x" "\<not> neg x" "0 \<le> mag x" "0 < prec x"
    using assms(1) by (simp_all add: nneg_def fin_def)
  have t: "\<not> neg ?t" "0 \<le> mag ?t"
    using assms(2) by (simp_all add: SetInt_def Let_def round_to_nonneg)
  have tp: "0 < v \<Longrightarrow> 0 < mag ?t"
    by (simp add: SetInt_def Let_def round_to_pos)
  let ?s = "sval x + sval ?t"
  have s: "?s = mag x + mag ?t" "0 \<le> ?s"
    using x t by (simp_all add: sval_def)
  have z: "Add (prec x) x ?t = Inr (rounded (prec x) (neg x \<and> neg ?t) ?s)"
    using x(1) by (simp add: Add_fin zprec_self)
  have "nneg (rounded (prec x) (neg x \<and> neg ?t) ?s)"
    using x s by (simp add: nneg_def fin_rounded) (simp add: rounded_def)
  moreover have "pos (rounded (prec x) (neg x \<and> neg ?t) ?s)" if "pos x \<or> 0 < v"
  proof -
    have "0 < ?s"
      using that tp x t s by (auto simp: pos_def intro: add_pos_nonneg add_nonneg_pos)
    then show ?thesis
      using x by (simp add: pos_def fin_rounded) (simp add: rounded_def round_to_pos)
  qed
  ultimately show ?thesis
    using z by simp
qed

lemma mean_loop_nneg:
  "nneg acc \<Longrightarrow> \<forall>v\<in>set vs. 0 \<le> v
    \<Longrightarrow> \<exists>s. mean_loop acc vs = Inr s \<and> nneg s \<and> prec s = prec acc
            \<and> (pos acc \<or> (\<exists>v\<in>set vs. 0 < v) \<longrightarrow> pos s)"
proof (induction vs arbitrary: acc)
  case Nil
  then show ?case by simp
next
  case (Cons v vs)
  have v: "0 \<le> v" and vs: "\<forall>u\<in>set vs. 0 \<le> u"
    using Cons.prems(2) by simp_all
  obtain a where a: "Add (prec acc) acc (SetInt 0 v) = Inr a" "nneg a" "prec a = prec acc"
      "pos acc \<or> 0 < v \<longrightarrow> pos a"
    using Add_nneg [OF Cons.prems(1) v] by blast
  obtain s where s: "mean_loop a vs = Inr s" "nneg s" "prec s = prec a"
      "pos a \<or> (\<exists>u\<in>set vs. 0 < u) \<longrightarrow> pos s"
    using Cons.IH [OF a(2) vs] by blast
  show ?case
    using a s by auto
qed

lemma mean_pos:
  assumes "\<forall>v\<in>set vs. 0 \<le> v" "\<exists>v\<in>set vs. 0 < v"
  shows "\<exists>mu. mean vs = Inr mu \<and> pos mu \<and> prec mu = 53"
proof -
  have ne: "vs \<noteq> []"
    using assms(2) by auto
  obtain s where s: "mean_loop (NewFloat 0) vs = Inr s" "pos s" "prec s = 53"
    using mean_loop_nneg [OF nneg_NewFloat [of 0] assms(1)] assms(2) by auto
  let ?n = "NewFloat (int (length vs))"
  have n: "fin ?n" "\<not> is_zero ?n" "\<not> neg ?n" "0 < mag ?n"
    using NewFloat_length_nonzero [OF ne] fin_NewFloat [of "int (length vs)"]
    by (simp_all add: is_zero_def NewFloat_def)
  have sf: "fin s" "\<not> neg s" "0 < mag s"
    using s(2) by (simp_all add: pos_def)
  have "Quo (prec s) s ?n = Inr (Finite 53 False (round_to 53 (mag s / mag ?n)))"
    using sf n s(3) by (simp add: Quo_fin zprec_def)
  moreover have "0 < round_to 53 (mag s / mag ?n)"
    using sf n by (intro round_to_pos) auto
  ultimately show ?thesis
    using s by (simp add: mean_def pos_def round_to_nonneg)
qed

lemma Quo_no_panic:
  assumes "fin x" "fin y" "\<not> (is_zero x \<and> is_zero y)"
  shows "\<exists>z. Quo zp x y = Inr z"
  using assms by (cases x; cases y) (auto simp: Quo_def Let_def is_zero_def is_inf_def)

lemma fin_Neg:
  "fin x \<Longrightarrow> fin (Neg 0 x) \<and> prec (Neg 0 x) = prec x \<and> sval (Neg 0 x) = - sval x
     \<and> (is_zero (Neg 0 x) \<longleftrightarrow> is_zero x)"
  by (cases x) (auto simp: Neg_def is_zero_def sval_def)

lemma rne_of_int [simp]: "rne (of_int z) = z"
  by (simp add: rne_def)

lemma bitlen_one: "bitlen 1 = 1"
  by (simp add: bitlen_alt_def)

lemma binexp_of_int:
  assumes "0 < i"
  shows "binexp (of_int i) = bitlen i"
proof -
  have "(2::int) ^ nat (bitlen i - 1) \<le> i"
    using bitlen_bounds [OF assms] by simp
  then have "(2::rat) ^ nat (bitlen i - 1) \<le> of_int i"
    by (metis of_int_le_iff of_int_numeral of_int_power)
  moreover have "1 \<le> bitlen i"
    using assms by (simp add: bitlen_alt_def)
  ultimately have "\<not> of_int i < (2::rat) powi (bitlen i - 1)"
    by (simp add: power_int_def not_less)
  then show ?thesis
    by (simp add: binexp_def bitlen_one)
qed

lemma round_to_of_int:
  assumes "0 \<le> i" "nat (bitlen i) \<le> p"
  shows "round_to p (of_int i) = of_int i"
proof (cases "i = 0")
  case True
  then show ?thesis by simp
next
  case False
  then have i: "0 < i"
    using assms(1) by simp
  let ?e = "int p - bitlen i"
  have e: "0 \<le> ?e"
    using assms(2) by simp
  have u: "(2::rat) powi (bitlen i - int p) = 1 / 2 ^ nat ?e"
    using e by (simp add: power_int_def field_simps nat_diff_distrib' flip: power_inverse)
  have "of_int i / (1 / (2::rat) ^ nat ?e) = of_int (i * 2 ^ nat ?e)"
    by simp
  then have "rne (of_int i / (1 / (2::rat) ^ nat ?e)) = i * 2 ^ nat ?e"
    by (simp only: rne_of_int)
  then show ?thesis
    using i by (simp add: round_to_def Let_def binexp_of_int u)
qed

lemma sval_SetInt: "sval (SetInt 0 i) = of_int i"
proof -
  have "round_to (max (nat (bitlen \<bar>i\<bar>)) 64) (of_int \<bar>i\<bar>) = of_int \<bar>i\<bar>"
    by (rule round_to_of_int) simp_all
  then show ?thesis
    by (simp add: SetInt_def Let_def sval_def)
qed



section \<open>What the build writes\<close>

lemma covers_empty: "\<not> covers wd dp d lo lo l p"
  by (simp add: covers_def)

lemma covers_split:
  assumes "lo \<le> mid" "mid \<le> hi"
  shows "covers wd dp d lo hi l p \<longleftrightarrow> covers wd dp d lo mid l p \<or> covers wd dp d mid hi l p"
proof -
  have "(lo * X \<le> p \<and> p < hi * X) \<longleftrightarrow> (lo * X \<le> p \<and> p < mid * X) \<or> (mid * X \<le> p \<and> p < hi * X)"
    for X :: nat
    using mult_le_mono1 [OF assms(1), of X] mult_le_mono1 [OF assms(2), of X] by linarith
  then show ?thesis
    unfolding covers_def by blast
qed

lemma covers_disjoint:
  "covers wd dp d lo mid l p \<Longrightarrow> \<not> covers wd dp d mid hi l p"
  by (simp add: covers_def)

lemma covers_leaf:
  assumes "int d = dp - 1"
  shows "covers wd dp d loc (Suc loc) l p \<longleftrightarrow> l = d \<and> p = loc"
  using assms by (auto simp: covers_def)

lemma covers_node:
  "covers wd dp d loc (Suc loc) l p \<longleftrightarrow>
     (l = d \<and> p = loc \<and> int d < dp)
     \<or> covers wd dp (Suc d) (loc * nat wd) (loc * nat wd + nat wd) l p"
proof (cases "l = d")
  case True
  then show ?thesis
    by (auto simp: covers_def)
next
  case False
  show ?thesis
  proof (cases "d < l")
    case True
    then obtain k where l: "l = Suc (d + k)"
      using less_iff_Suc_add by auto
    show ?thesis
      by (simp add: covers_def l algebra_simps)
  next
    case False
    with \<open>l \<noteq> d\<close> show ?thesis
      by (simp add: covers_def)
  qed
qed

lemma builds_len: "builds wd dp ns ns' d lo hi c \<Longrightarrow> length ns' = length ns"
  by (simp add: builds_def)

lemma builds_lens:
  "builds wd dp ns ns' d lo hi c \<Longrightarrow> l < length ns \<Longrightarrow> length (ns' ! l) = length (ns ! l)"
  by (simp add: builds_def)

lemma builds_cov:
  "builds wd dp ns ns' d lo hi c \<Longrightarrow> covers wd dp d lo hi l p \<Longrightarrow>
     l < length ns \<and> p < length (ns ! l)
     \<and> (\<exists>node. fitArgs (c l p) = Inr node \<and> ns' ! l ! p = Some node)"
  unfolding builds_def by blast

lemma builds_frame:
  "builds wd dp ns ns' d lo hi c \<Longrightarrow> l < length ns \<Longrightarrow> p < length (ns ! l) \<Longrightarrow>
     \<not> covers wd dp d lo hi l p \<Longrightarrow> ns' ! l ! p = ns ! l ! p"
  unfolding builds_def by blast

lemma buildsI:
  assumes "length ns' = length ns"
    and "\<And>l. l < length ns \<Longrightarrow> length (ns' ! l) = length (ns ! l)"
    and "\<And>l p. covers wd dp d lo hi l p \<Longrightarrow>
           l < length ns \<and> p < length (ns ! l)
           \<and> (\<exists>node. fitArgs (c l p) = Inr node \<and> ns' ! l ! p = Some node)"
    and "\<And>l p. l < length ns \<Longrightarrow> p < length (ns ! l) \<Longrightarrow> \<not> covers wd dp d lo hi l p \<Longrightarrow>
           ns' ! l ! p = ns ! l ! p"
  shows "builds wd dp ns ns' d lo hi c"
  unfolding builds_def using assms by blast

lemma builds_empty: "builds wd dp ns ns d lo lo c"
  by (simp add: builds_def covers_empty)

lemma builds_cong:
  assumes "builds wd dp ns ns' d lo hi c"
    and "\<And>l p. covers wd dp d lo hi l p \<Longrightarrow> c l p = c' l p"
  shows "builds wd dp ns ns' d lo hi c'"
  using assms unfolding builds_def by metis

lemma builds_seq:
  assumes 1: "builds wd dp ns ns1 d lo mid c"
    and 2: "builds wd dp ns1 ns2 d mid hi c"
    and le: "lo \<le> mid" "mid \<le> hi"
  shows "builds wd dp ns ns2 d lo hi c"
proof (rule buildsI)
  note sp = covers_split [OF le, of wd dp d]
  have len1: "length ns1 = length ns"
    using 1 by (rule builds_len)
  have lens1: "length (ns1 ! l) = length (ns ! l)" if "l < length ns" for l
    using 1 that by (rule builds_lens)
  show "length ns2 = length ns"
    using builds_len [OF 2] len1 by simp
  show "length (ns2 ! l) = length (ns ! l)" if "l < length ns" for l
    using builds_lens [OF 2, of l] lens1 [OF that] len1 that by simp
  show "l < length ns \<and> p < length (ns ! l)
      \<and> (\<exists>node. fitArgs (c l p) = Inr node \<and> ns2 ! l ! p = Some node)"
    if "covers wd dp d lo hi l p" for l p
  proof (cases "covers wd dp d lo mid l p")
    case True
    then have r: "l < length ns" "p < length (ns ! l)"
        "\<exists>node. fitArgs (c l p) = Inr node \<and> ns1 ! l ! p = Some node"
      using builds_cov [OF 1] by blast+
    have "\<not> covers wd dp d mid hi l p"
      using True by (rule covers_disjoint)
    then have "ns2 ! l ! p = ns1 ! l ! p"
      using builds_frame [OF 2, of l p] r len1 lens1 by simp
    then show ?thesis
      using r by simp
  next
    case False
    then have "covers wd dp d mid hi l p"
      using that sp by simp
    then have "l < length ns1 \<and> p < length (ns1 ! l)
      \<and> (\<exists>node. fitArgs (c l p) = Inr node \<and> ns2 ! l ! p = Some node)"
      by (rule builds_cov [OF 2])
    then show ?thesis
      using len1 lens1 [of l] by simp
  qed
  show "ns2 ! l ! p = ns ! l ! p"
    if "l < length ns" "p < length (ns ! l)" "\<not> covers wd dp d lo hi l p" for l p
  proof -
    have n: "\<not> covers wd dp d lo mid l p" "\<not> covers wd dp d mid hi l p"
      using that(3) sp by simp_all
    have "ns2 ! l ! p = ns1 ! l ! p"
      using builds_frame [OF 2, of l p] n(2) that len1 lens1 by simp
    also have "\<dots> = ns ! l ! p"
      using builds_frame [OF 1, of l p] n(1) that by simp
    finally show ?thesis .
  qed
qed

lemma store_len: "length (store ns d loc node) = length ns"
  by (simp add: store_def)

lemma store_lens: "l < length ns \<Longrightarrow> length (store ns d loc node ! l) = length (ns ! l)"
  by (cases "l = d") (simp_all add: store_def)

lemma store_nth:
  "l < length ns \<Longrightarrow> p < length (ns ! l) \<Longrightarrow>
     store ns d loc node ! l ! p = (if l = d \<and> p = loc then Some node else ns ! l ! p)"
  by (cases "l = d"; cases "p = loc") (simp_all add: store_def)

lemma builds_leaf:
  assumes "int d = dp - 1" "d < length ns" "loc < length (ns ! d)"
    and "fitArgs (c d loc) = Inr node"
  shows "builds wd dp ns (store ns d loc node) d loc (Suc loc) c"
  using assms by (intro buildsI) (auto simp: covers_leaf store_len store_lens store_nth)

lemma builds_node:
  assumes d: "int d < dp" "d < length ns" "loc < length (ns ! d)"
    and fit: "fitArgs (c d loc) = Inr node"
    and ch: "builds wd dp (store ns d loc node) ns' (Suc d) (loc * nat wd) (loc * nat wd + nat wd) c"
  shows "builds wd dp ns ns' d loc (Suc loc) c"
proof (rule buildsI)
  let ?ns1 = "store ns d loc node"
  let ?cov = "covers wd dp (Suc d) (loc * nat wd) (loc * nat wd + nat wd)"
  show len: "length ns' = length ns"
    using builds_len [OF ch] by (simp add: store_len)
  show lens: "length (ns' ! l) = length (ns ! l)" if "l < length ns" for l
    using builds_lens [OF ch, of l] that by (simp add: store_len store_lens)
  have notd: "\<not> ?cov d p" for p
    by (simp add: covers_def)
  show "l < length ns \<and> p < length (ns ! l)
      \<and> (\<exists>node. fitArgs (c l p) = Inr node \<and> ns' ! l ! p = Some node)"
    if "covers wd dp d loc (Suc loc) l p" for l p
  proof (cases "?cov l p")
    case True
    then have "l < length ?ns1 \<and> p < length (?ns1 ! l)
      \<and> (\<exists>node. fitArgs (c l p) = Inr node \<and> ns' ! l ! p = Some node)"
      by (rule builds_cov [OF ch])
    then show ?thesis
      by (auto simp: store_len store_lens)
  next
    case False
    then have lp: "l = d" "p = loc"
      using that covers_node [of wd dp d loc l p] by simp_all
    have "ns' ! d ! loc = ?ns1 ! d ! loc"
      using builds_frame [OF ch, of d loc] d notd [of loc] by (simp add: store_len store_lens)
    then show ?thesis
      using d fit lp by (simp add: store_nth)
  qed
  show "ns' ! l ! p = ns ! l ! p"
    if "l < length ns" "p < length (ns ! l)" "\<not> covers wd dp d loc (Suc loc) l p" for l p
  proof -
    have n: "\<not> ?cov l p" "\<not> (l = d \<and> p = loc)"
      using that(3) d(1) covers_node [of wd dp d loc l p] by auto
    have "ns' ! l ! p = ?ns1 ! l ! p"
      using builds_frame [OF ch, of l p] n(1) that by (simp add: store_len store_lens)
    then show ?thesis
      using n(2) that by (simp add: store_nth)
  qed
qed


lemma builds_void: "hi \<le> lo \<Longrightarrow> builds wd dp ns ns d lo hi c"
proof -
  assume le: "hi \<le> lo"
  have "\<not> covers wd dp d lo hi l p" for l p
    unfolding covers_def using mult_le_mono1 [OF le, of "nat wd ^ (l - d)"] by linarith
  then show ?thesis
    by (simp add: builds_def)
qed

lemma div_mod_in_block:
  fixes p a X :: nat
  assumes "a * X \<le> p" "p < Suc a * X"
  shows "p div X = a" "p mod X = p - a * X"
proof -
  have X: "0 < X"
    using assms by (cases "X = 0") auto
  show d: "p div X = a"
    using assms X by (metis div_nat_eqI mult.commute)
  show "p mod X = p - a * X"
    using d by (metis minus_mult_div_eq_mod mult.commute)
qed

lemma div_beyond_block:
  fixes p a h X :: nat
  assumes "Suc a * X \<le> p" "p < h * X"
  shows "p div X - a = Suc (p div X - Suc a)"
proof -
  have X: "0 < X"
    using assms by (cases "X = 0") auto
  have "Suc a \<le> p div X"
    using assms(1) X by (simp add: less_eq_div_iff_mult_less_eq)
  then show ?thesis
    by simp
qed

lemma sub_block_div:
  fixes p a X :: nat
  shows "(p - a * X) div X = p div X - a"
proof (cases "X = 0")
  case True
  then show ?thesis by simp
next
  case False
  show ?thesis
  proof (cases "a * X \<le> p")
    case True
    then obtain q where "p = q + a * X"
      by (metis le_add_diff_inverse2)
    then show ?thesis
      using False by simp
  next
    case False
    then have "p div X < a"
      using \<open>X \<noteq> 0\<close> by (simp add: div_less_iff_less_mult)
    with False show ?thesis
      by simp
  qed
qed

lemma sub_block_mod:
  fixes p a X :: nat
  assumes "a * X \<le> p"
  shows "(p - a * X) mod X = p mod X"
proof -
  obtain q where "p = q + a * X"
    using assms by (metis le_add_diff_inverse2)
  then show ?thesis
    by simp
qed

lemma buildRecursive_Inr:
  "buildRecursive wd dp ns values indices offset d loc = Inr ns' \<longleftrightarrow>
     int d < dp \<and> d < length ns \<and> loc < length (ns ! d)
     \<and> (\<exists>node. fitNode values indices offset = Inr node
          \<and> (if int d \<noteq> dp - 1
              then buildChildren wd dp (store ns d loc node) values indices offset (Suc d) loc
                     (int (length values) div wd) 0 0 (max 0 (int (length values) div wd)) = Inr ns'
              else ns' = store ns d loc node))"
  by (subst buildRecursive.simps) (auto simp: Let_def store_def split: sum.splits)

lemma buildChildren_Inr:
  "buildChildren wd dp ns values indices offset d loc rs i left right = Inr ns' \<longleftrightarrow>
     (if int i < wd then
        (\<exists>subIndices offset1 subValues ns1.
            subRange indices offset (fst (clampLR (int (length indices)) left right))
              (snd (clampLR (int (length indices)) left right)) = Inr (subIndices, offset1)
          \<and> slice values (fst (clampLR (int (length indices)) left right))
              (snd (clampLR (int (length indices)) left right)) = Inr subValues
          \<and> buildRecursive wd dp ns subValues subIndices offset1 d (loc * nat wd + i) = Inr ns1
          \<and> buildChildren wd dp ns1 values indices offset1 d loc rs (Suc i)
              (snd (clampLR (int (length indices)) left right))
              (nextRight (int (length indices)) rs (snd (clampLR (int (length indices)) left right)))
              = Inr ns')
      else ns' = ns)"
  by (subst buildChildren.simps) (auto simp: Let_def split: sum.splits prod.splits)

lemma children_loop_step:
  assumes "subRange indices offset (fst (clampLR (int (length indices)) left right))
              (snd (clampLR (int (length indices)) left right)) = Inr (subIndices, offset1)"
    and "slice values (fst (clampLR (int (length indices)) left right))
              (snd (clampLR (int (length indices)) left right)) = Inr subValues"
  shows "children_loop (Suc k) values indices offset rs left right =
           (subValues, subIndices, offset1)
           # children_loop k values indices offset1 rs
               (snd (clampLR (int (length indices)) left right))
               (nextRight (int (length indices)) rs (snd (clampLR (int (length indices)) left right)))"
  using assms
  by (auto simp: subRange_def slice_def Let_def split: if_splits sum.splits list.splits prod.splits)

lemma subRange_length:
  assumes "subRange indices offset l1 r1 = Inr (subIndices, offset1)"
    and "slice values l1 r1 = Inr subValues" "length indices = length values"
  shows "length subIndices = length subValues"
  using assms
  by (auto simp: subRange_def slice_def cut_def split: if_splits sum.splits list.splits)

lemma fitArgs_eq [simp]: "fitArgs (values, indices, offset) = fitNode values indices offset"
  by (simp add: fitArgs_def)

lemma subArgs_child_shift:
  assumes "loc * nat wd * nat wd ^ k \<le> p"
  shows "subArgs wd a (Suc k) (p - loc * nat wd ^ Suc k) =
           subArgs wd (childArgs wd a ! (p div nat wd ^ k - loc * nat wd)) k (p mod nat wd ^ k)"
proof -
  have e: "loc * nat wd ^ Suc k = loc * nat wd * nat wd ^ k"
    by simp
  show ?thesis
    unfolding subArgs.simps e sub_block_div sub_block_mod [OF assms] ..
qed

lemma build_builds:
  "buildRecursive wd dp ns values indices offset d loc = Inr ns' \<Longrightarrow>
     length indices = length values \<Longrightarrow>
     builds wd dp ns ns' d loc (Suc loc)
       (\<lambda>l p. subArgs wd (values, indices, offset) (l - d) (p - loc * nat wd ^ (l - d)))"
  "buildChildren wd dp ns values indices offset d loc rs i left right = Inr ns' \<Longrightarrow>
     length indices = length values \<Longrightarrow>
     builds wd dp ns ns' d (loc * nat wd + i) (loc * nat wd + nat wd)
       (\<lambda>l p. subArgs wd
          (children_loop (nat wd - i) values indices offset rs left right
            ! (p div nat wd ^ (l - d) - (loc * nat wd + i)))
          (l - d) (p mod nat wd ^ (l - d)))"
proof (induction wd dp ns "values" indices offset d loc
    and wd dp ns "values" indices offset d loc rs i left right
    arbitrary: ns' and ns' rule: buildRecursive_buildChildren.induct)
  case (1 wd dp ns vs indices offset d loc)
  let ?a = "(vs, indices, offset)"
  let ?c = "\<lambda>l p. subArgs wd ?a (l - d) (p - loc * nat wd ^ (l - d))"
  let ?rs = "int (length vs) div wd"
  from "1.prems"(1) obtain node where d: "int d < dp" "d < length ns" "loc < length (ns ! d)"
    and fit: "fitNode vs indices offset = Inr node"
    and rest: "if int d \<noteq> dp - 1
              then buildChildren wd dp (store ns d loc node) vs indices offset (Suc d) loc
                     ?rs 0 0 (max 0 ?rs) = Inr ns'
              else ns' = store ns d loc node"
    unfolding buildRecursive_Inr by blast
  have cfit: "fitArgs (?c d loc) = Inr node"
    using fit by simp
  show ?case
  proof (cases "int d = dp - 1")
    case True
    then show ?thesis
      using rest builds_leaf [where c = ?c, OF True d(2,3) cfit] by simp
  next
    case False
    have st: "store ns d loc node = ns[d := (ns ! d)[loc := Some node]]"
      by (simp add: store_def)
    have bc: "buildChildren wd dp (ns[d := (ns ! d)[loc := Some node]]) vs indices offset (Suc d)
                loc ?rs 0 0 (max 0 ?rs) = Inr ns'"
      using rest False unfolding st by simp
    let ?c2 = "\<lambda>l p. subArgs wd
                 (children_loop (nat wd) vs indices offset ?rs 0 (max 0 ?rs)
                   ! (p div nat wd ^ (l - Suc d) - loc * nat wd))
                 (l - Suc d) (p mod nat wd ^ (l - Suc d))"
    have g: "\<not> \<not> (int d < dp \<and> d < length ns \<and> loc < length (ns ! d))"
      using d by simp
    have "builds wd dp (store ns d loc node) ns' (Suc d) (loc * nat wd) (loc * nat wd + nat wd) ?c2"
      using "1.IH" [OF g fit refl False refl bc "1.prems"(2)]
      unfolding st add_0_right diff_zero .
    then have "builds wd dp (store ns d loc node) ns' (Suc d) (loc * nat wd) (loc * nat wd + nat wd) ?c"
    proof (rule builds_cong [where c' = ?c])
      fix l p
      assume cov: "covers wd dp (Suc d) (loc * nat wd) (loc * nat wd + nat wd) l p"
      then have "Suc d \<le> l"
        by (simp add: covers_def)
      then obtain k where l: "l = Suc d + k"
        using le_Suc_ex by blast
      have lk: "l - Suc d = k" "l - d = Suc k"
        using l by simp_all
      have lo: "loc * nat wd * nat wd ^ k \<le> p"
        using cov unfolding covers_def lk by simp
      have "?c l p = subArgs wd ?a (Suc k) (p - loc * nat wd ^ Suc k)"
        unfolding lk ..
      also have "\<dots> = subArgs wd (childArgs wd ?a ! (p div nat wd ^ k - loc * nat wd)) k
                         (p mod nat wd ^ k)"
        by (rule subArgs_child_shift [OF lo])
      also have "\<dots> = ?c2 l p"
        unfolding lk by (simp add: childArgs_def Let_def)
      finally show "?c2 l p = ?c l p" ..
    qed
    then show ?thesis
      by (rule builds_node [where c = ?c, OF d cfit])
  qed
next
  case (2 wd dp ns vs indices offset d loc rs i left right)
  let ?W = "nat wd"
  let ?lr = "clampLR (int (length indices)) left right"
  let ?c = "\<lambda>l p. subArgs wd
          (children_loop (?W - i) vs indices offset rs left right
            ! (p div ?W ^ (l - d) - (loc * ?W + i)))
          (l - d) (p mod ?W ^ (l - d))"
  show ?case
  proof (cases "int i < wd")
    case False
    then have "ns' = ns" "loc * ?W + ?W \<le> loc * ?W + i"
      using iffD1 [OF buildChildren_Inr "2.prems"(1)] by simp_all
    then show ?thesis
      by (simp add: builds_void)
  next
    case True
    then obtain subI off1 subV ns1 where
      sr: "subRange indices offset (fst ?lr) (snd ?lr) = Inr (subI, off1)"
      and sl: "slice vs (fst ?lr) (snd ?lr) = Inr subV"
      and br: "buildRecursive wd dp ns subV subI off1 d (loc * ?W + i) = Inr ns1"
      and bc: "buildChildren wd dp ns1 vs indices off1 d loc rs (Suc i) (snd ?lr)
              (nextRight (int (length indices)) rs (snd ?lr)) = Inr ns'"
      using iffD1 [OF buildChildren_Inr "2.prems"(1)] by auto
    have len: "length subI = length subV"
      using subRange_length [OF sr sl "2.prems"(2)] .
    have i: "i < ?W" "?W - i = Suc (?W - Suc i)"
      using True by simp_all
    have pr: "(fst ?lr, snd ?lr) = ?lr"
      by simp
    let ?rest = "children_loop (?W - Suc i) vs indices off1 rs (snd ?lr)
                   (nextRight (int (length indices)) rs (snd ?lr))"
    have cl: "children_loop (?W - i) vs indices offset rs left right = (subV, subI, off1) # ?rest"
      unfolding i(2) by (rule children_loop_step [OF sr sl])
    let ?c1 = "\<lambda>l p. subArgs wd (subV, subI, off1) (l - d) (p - (loc * ?W + i) * ?W ^ (l - d))"
    let ?c2 = "\<lambda>l p. subArgs wd (?rest ! (p div ?W ^ (l - d) - (loc * ?W + Suc i)))
                 (l - d) (p mod ?W ^ (l - d))"
    have "builds wd dp ns ns1 d (loc * ?W + i) (Suc (loc * ?W + i)) ?c1"
      by (rule "2.IH"(1) [OF True refl pr sr refl sl br len])
    then have 1: "builds wd dp ns ns1 d (loc * ?W + i) (Suc (loc * ?W + i)) ?c"
    proof (rule builds_cong [where c' = ?c])
      fix l p
      assume "covers wd dp d (loc * ?W + i) (Suc (loc * ?W + i)) l p"
      then have "(loc * ?W + i) * ?W ^ (l - d) \<le> p" "p < Suc (loc * ?W + i) * ?W ^ (l - d)"
        unfolding covers_def by blast+
      from div_mod_in_block [OF this] show "?c1 l p = ?c l p"
        unfolding cl by simp
    qed
    have "builds wd dp ns1 ns' d (loc * ?W + Suc i) (loc * ?W + ?W) ?c2"
      by (rule "2.IH"(2) [OF True refl pr sr refl sl br bc "2.prems"(2)])
    then have 2: "builds wd dp ns1 ns' d (loc * ?W + Suc i) (loc * ?W + ?W) ?c"
    proof (rule builds_cong [where c' = ?c])
      fix l p
      assume "covers wd dp d (loc * ?W + Suc i) (loc * ?W + ?W) l p"
      then have "Suc (loc * ?W + i) * ?W ^ (l - d) \<le> p" "p < (loc * ?W + ?W) * ?W ^ (l - d)"
        unfolding covers_def add_Suc_right by blast+
      from div_beyond_block [OF this] show "?c2 l p = ?c l p"
        unfolding cl by simp
    qed
    have 1: "builds wd dp ns ns1 d (loc * ?W + i) (loc * ?W + Suc i) ?c"
      using 1 by simp
    show ?thesis
      using i(1) by (intro builds_seq [OF 1 2]) simp_all
  qed
qed

lemma mod_mult_div:
  fixes p W X :: nat
  shows "(p mod (W * X)) div W = (p div W) mod X"
proof (cases "W = 0")
  case True
  then show ?thesis by simp
next
  case False
  have "p mod (W * X) = W * (p div W mod X) + p mod W"
    by (rule mod_mult2_eq)
  then show ?thesis
    using False by simp
qed

lemma subArgs_bottom_up:
  "p < nat wd ^ Suc k \<Longrightarrow>
     subArgs wd a (Suc k) p = childArgs wd (subArgs wd a k (p div nat wd)) ! (p mod nat wd)"
proof (induction k arbitrary: a p)
  case 0
  then show ?case by simp
next
  case (Suc k)
  let ?W = "nat wd"
  have W: "0 < ?W"
    using Suc.prems by (cases "?W = 0") auto
  let ?a' = "childArgs wd a ! (p div ?W ^ Suc k)"
  let ?p' = "p mod ?W ^ Suc k"
  have p': "?p' < ?W ^ Suc k"
    using W by simp
  have e1: "?p' mod ?W = p mod ?W"
    by (simp add: mod_mod_cancel)
  have e2: "?p' div ?W = (p div ?W) mod ?W ^ k"
    using mod_mult_div [of p ?W "?W ^ k"] by simp
  have e3: "p div ?W div ?W ^ k = p div ?W ^ Suc k"
    by (simp add: div_mult2_eq)
  have "subArgs wd a (Suc (Suc k)) p = subArgs wd ?a' (Suc k) ?p'"
    by simp
  also have "\<dots> = childArgs wd (subArgs wd ?a' k (?p' div ?W)) ! (?p' mod ?W)"
    by (rule Suc.IH [OF p'])
  also have "\<dots> = childArgs wd (subArgs wd ?a' k ((p div ?W) mod ?W ^ k)) ! (p mod ?W)"
    unfolding e1 e2 ..
  also have "\<dots> = childArgs wd (subArgs wd a (Suc k) (p div ?W)) ! (p mod ?W)"
    unfolding subArgs.simps e3 ..
  finally show ?case .
qed

lemma subArgs_slotArgs:
  "p < nat wd ^ l \<Longrightarrow>
     subArgs wd (values, map int [0..<length values], 0) l p = slotArgs wd values l p"
proof (induction l arbitrary: p)
  case 0
  then show ?case by simp
next
  case (Suc l)
  have W: "0 < nat wd"
    using Suc.prems by (cases "nat wd = 0") auto
  have "p div nat wd < nat wd ^ l"
    using Suc.prems W by (simp add: less_mult_imp_div_less mult.commute)
  from Suc.IH [OF this] show ?case
    using subArgs_bottom_up [OF Suc.prems] by simp
qed

lemma makeLayers_shape:
  "makeLayers k s wd = Inr ls \<Longrightarrow>
     length ls = k \<and> (\<forall>l<k. ls ! l = replicate (nat (s * wd ^ l)) None)"
proof (induction k arbitrary: s ls)
  case 0
  then show ?case by simp
next
  case (Suc k)
  from Suc.prems obtain ls' where
    ls': "makeLayers k (s * wd) wd = Inr ls'" "ls = replicate (nat s) None # ls'"
    by (auto split: if_splits sum.splits)
  have "ls ! l = replicate (nat (s * wd ^ l)) None" if "l < Suc k" for l
  proof (cases l)
    case 0
    then show ?thesis using ls' by simp
  next
    case (Suc j)
    then show ?thesis
      using Suc.IH [OF ls'(1)] that ls'(2) by (simp add: mult.assoc)
  qed
  then show ?case
    using Suc.IH [OF ls'(1)] ls'(2) by simp
qed

lemma NewRMI_Inr:
  assumes "NewRMI values wd dp = Inr rmi"
  obtains ns ns1 where "0 \<le> dp" "makeLayers (nat dp) 1 wd = Inr ns"
    "buildRecursive wd dp ns values (map int [0..<length values]) 0 0 0 = Inr ns1"
    "rmi = \<lparr>width = wd, depth = dp, root = ns1 ! 0 ! 0, nodes = ns1,
            maxIndex = int (length values) - 1\<rparr>"
  using assms
  by (auto simp: NewRMI_def Let_def split: if_splits sum.splits)

lemma covers_root: "covers wd dp 0 0 (Suc 0) l p \<longleftrightarrow> int l < dp \<and> p < nat wd ^ l"
  by (simp add: covers_def)

lemma NewRMI_nodes:
  assumes wd: "1 \<le> wd" and rmi: "NewRMI values wd dp = Inr rmi"
  shows "length (nodes rmi) = nat dp"
    and "l < nat dp \<Longrightarrow> length (nodes rmi ! l) = nat wd ^ l"
    and "l < nat dp \<Longrightarrow> p < nat wd ^ l \<Longrightarrow>
          \<exists>node. nodes rmi ! l ! p = Some node \<and> fitArgs (slotArgs wd values l p) = Inr node"
proof -
  from rmi obtain ns ns1 where dp: "0 \<le> dp" and ml: "makeLayers (nat dp) 1 wd = Inr ns"
    and br: "buildRecursive wd dp ns values (map int [0..<length values]) 0 0 0 = Inr ns1"
    and r: "rmi = \<lparr>width = wd, depth = dp, root = ns1 ! 0 ! 0, nodes = ns1,
            maxIndex = int (length values) - 1\<rparr>"
    by (rule NewRMI_Inr)
  let ?a = "(values, map int [0..<length values], 0::int)"
  have b: "builds wd dp ns ns1 0 0 (Suc 0) (\<lambda>l p. subArgs wd ?a l p)"
    using build_builds(1) [OF br] by simp
  have ns: "length ns = nat dp" "\<And>l. l < nat dp \<Longrightarrow> length (ns ! l) = nat wd ^ l"
    using makeLayers_shape [OF ml] wd by (simp_all add: nat_power_eq)
  show "length (nodes rmi) = nat dp"
    using builds_len [OF b] ns r by simp
  show "length (nodes rmi ! l) = nat wd ^ l" if "l < nat dp" for l
    using builds_lens [OF b, of l] ns that r by simp
  show "\<exists>node. nodes rmi ! l ! p = Some node \<and> fitArgs (slotArgs wd values l p) = Inr node"
    if "l < nat dp" "p < nat wd ^ l" for l p
  proof -
    have "covers wd dp 0 0 (Suc 0) l p"
      using that by (simp add: covers_root)
    from builds_cov [OF b this] show ?thesis
      using r subArgs_slotArgs [OF that(2), of "values"] by auto
  qed
qed

text \<open>
  Claim C8. A tree built with width and depth at least 1 has exactly \<open>depth\<close> layers,
  layer \<open>l\<close> has exactly \<open>width ^ l\<close> slots, the root is the node of slot \<open>(0, 0)\<close>,
  fitted to all keys, and child number \<open>i\<close> of the node in slot \<open>(l, p)\<close> is the node
  stored in slot \<open>(l + 1, p * width + i)\<close>, fitted to what the loop of the build hands
  to that child; so every slot holds a node.
\<close>

theorem NewRMI_shape:
  assumes "1 \<le> wd" and "1 \<le> dp" and "NewRMI values wd dp = Inr rmi"
  shows "width rmi = wd \<and> depth rmi = dp
    \<and> length (nodes rmi) = nat dp
    \<and> (\<forall>l<nat dp. length (nodes rmi ! l) = nat wd ^ l)
    \<and> root rmi = nodes rmi ! 0 ! 0
    \<and> (\<exists>node. nodes rmi ! 0 ! 0 = Some node
          \<and> fitNode values (map int [0..<length values]) 0 = Inr node)
    \<and> (\<forall>l p i. Suc l < nat dp \<and> p < nat wd ^ l \<and> i < nat wd \<longrightarrow>
          (\<exists>node. nodes rmi ! Suc l ! (p * nat wd + i) = Some node
             \<and> fitArgs (childArgs wd (slotArgs wd values l p) ! i) = Inr node))
    \<and> (\<forall>l<nat dp. \<forall>p<nat wd ^ l. nodes rmi ! l ! p \<noteq> None)"
proof -
  note n = NewRMI_nodes [OF assms(1,3)]
  have f: "width rmi = wd" "depth rmi = dp" "root rmi = nodes rmi ! 0 ! 0"
    using assms(3) by (auto elim!: NewRMI_Inr)
  have r: "\<exists>node. nodes rmi ! 0 ! 0 = Some node
          \<and> fitNode values (map int [0..<length values]) 0 = Inr node"
    using n(3) [of 0 0] assms(2) by simp
  have c: "\<exists>node. nodes rmi ! Suc l ! (p * nat wd + i) = Some node
             \<and> fitArgs (childArgs wd (slotArgs wd values l p) ! i) = Inr node"
    if "Suc l < nat dp" "p < nat wd ^ l" "i < nat wd" for l p i
  proof -
    have "p * nat wd + i < nat wd ^ Suc l"
    proof -
      have "p * nat wd + i < p * nat wd + nat wd"
        using that(3) by simp
      also have "\<dots> = Suc p * nat wd"
        by simp
      also have "\<dots> \<le> nat wd ^ l * nat wd"
        using that(2) by (intro mult_le_mono1) simp
      finally show ?thesis
        by (simp add: mult.commute)
    qed
    from n(3) [OF that(1) this] show ?thesis
      using that(3) by simp
  qed
  have s: "nodes rmi ! l ! p \<noteq> None" if "l < nat dp" "p < nat wd ^ l" for l p
    using n(3) [OF that] by auto
  show ?thesis
    using f n(1,2) r c s by blast
qed

section \<open>A tree of one key\<close>

lemma single_key_tree:
  "NewRMI [5] 2 2 =
     Inr \<lparr>width = 2, depth = 2,
          root = Some \<lparr>m = Finite 53 False 0, b = Finite 64 False 0, w = Finite 53 False 0\<rparr>,
          nodes =
            [[Some \<lparr>m = Finite 53 False 0, b = Finite 64 False 0, w = Finite 53 False 0\<rparr>],
             [Some \<lparr>m = Finite 53 False 0, b = Finite 64 False 0, w = Finite 53 False 0\<rparr>,
              Some \<lparr>m = Finite 53 False 0, b = Finite 64 False 0, w = Finite 53 False 0\<rparr>]],
          maxIndex = 0\<rparr>"
  by code_simp

theorem NewRMI_shape_witness:
  "\<exists>rmi. (1::int) \<le> 2 \<and> (1::int) \<le> 2 \<and> NewRMI [5] 2 2 = Inr rmi
     \<and> width rmi = 2 \<and> depth rmi = 2
     \<and> length (nodes rmi) = nat 2
     \<and> (\<forall>l<nat 2. length (nodes rmi ! l) = nat 2 ^ l)
     \<and> root rmi = nodes rmi ! 0 ! 0
     \<and> (\<exists>node. nodes rmi ! 0 ! 0 = Some node
           \<and> fitNode [5] (map int [0..<length [5::int]]) 0 = Inr node)
     \<and> (\<forall>l p i. Suc l < nat 2 \<and> p < nat 2 ^ l \<and> i < nat 2 \<longrightarrow>
           (\<exists>node. nodes rmi ! Suc l ! (p * nat 2 + i) = Some node
              \<and> fitArgs (childArgs 2 (slotArgs 2 [5] l p) ! i) = Inr node))
     \<and> (\<forall>l<nat 2. \<forall>p<nat 2 ^ l. nodes rmi ! l ! p \<noteq> None)"
proof -
  obtain rmi where r: "NewRMI [5] 2 2 = Inr rmi"
    using single_key_tree by blast
  have w: "(1::int) \<le> 2"
    by simp
  show ?thesis
    using NewRMI_shape [OF w w r] r w by blast
qed

lemma length_children_loop [simp]:
  "length (children_loop k values indices offset rs left right) = k"
  by (induction k arbitrary: offset left right) (simp_all add: Let_def split: prod.splits)

lemma length_childArgs [simp]: "length (childArgs wd a) = nat wd"
  by (simp add: childArgs_def Let_def split: prod.splits)

lemma case_list_hd: "(case xs of [] \<Rightarrow> d | r # rs \<Rightarrow> r) = (if xs = [] then d else hd xs)"
  by (cases xs) simp_all

lemma children_loop_offset:
  "(vs, ranks, off) \<in> set (children_loop k values indices offset rs left right) \<Longrightarrow>
     ranks \<noteq> [] \<Longrightarrow> off = hd ranks"
proof (induction k arbitrary: offset left right)
  case 0
  then show ?case by simp
next
  case (Suc k)
  obtain l1 r1 where lr: "clampLR (int (length indices)) left right = (l1, r1)"
    by (cases "clampLR (int (length indices)) left right")
  let ?sub = "if l1 \<noteq> r1 then cut indices l1 r1 else []"
  let ?off = "if ?sub = [] then offset else hd ?sub"
  from Suc.prems(1) have "(vs, ranks, off) = (cut values l1 r1, ?sub, ?off)
      \<or> (vs, ranks, off) \<in> set (children_loop k values indices ?off rs r1
               (nextRight (int (length indices)) rs r1))"
    by (simp add: lr Let_def case_list_hd)
  then show ?case
  proof
    assume "(vs, ranks, off) = (cut values l1 r1, ?sub, ?off)"
    then have "ranks = ?sub" "off = ?off"
      by simp_all
    then show ?thesis
      using Suc.prems(2) by simp
  next
    assume "(vs, ranks, off) \<in> set (children_loop k values indices ?off rs r1
               (nextRight (int (length indices)) rs r1))"
    then show ?thesis
      using Suc.prems(2) by (rule Suc.IH)
  qed
qed

lemma NewFloat_0 [simp]: "NewFloat 0 = Finite 53 False 0"
  by (simp add: NewFloat_def)

lemma slotArgs_offset:
  assumes "p < nat wd ^ l" "slotArgs wd values l p = (vs, ranks, off)" "ranks \<noteq> []"
  shows "off = hd ranks"
proof (cases l)
  case 0
  then have iseq: "ranks = map int [0..<length values]" and off: "off = 0"
    using assms(2) by auto
  then have "0 < length values"
    using assms(3) by simp
  then have "hd ranks = int (hd [0..<length values])"
    unfolding iseq by (simp add: hd_map)
  also have "\<dots> = 0"
    using \<open>0 < length values\<close> by (simp add: hd_upt)
  finally show ?thesis
    using off by simp
next
  case (Suc k)
  have W: "0 < nat wd"
    using assms(1) Suc by (cases "nat wd = 0") auto
  then have "p mod nat wd < length (childArgs wd (slotArgs wd values k (p div nat wd)))"
    by simp
  then have "(vs, ranks, off) \<in> set (childArgs wd (slotArgs wd values k (p div nat wd)))"
    using assms(2) Suc by (metis nth_mem slotArgs.simps(2))
  then show ?thesis
    using children_loop_offset assms(3)
    by (fastforce simp: childArgs_def Let_def split: prod.splits)
qed

lemma fitNode_degenerate:
  "length ranks < 2 \<Longrightarrow>
     fitNode vs ranks off = Inr \<lparr>m = NewFloat 0, b = SetInt 0 off, w = NewFloat 0\<rparr>"
  by (simp add: fitNode_def)



section \<open>The query loop\<close>

lemma Mul_prec: "Mul zp x y = Inr z \<Longrightarrow> zp \<noteq> 0 \<Longrightarrow> prec z = zp"
  by (auto simp: Mul_def Let_def zprec_def split: if_splits)

lemma clampTo_code_leaf:
  "0 \<le> hi \<Longrightarrow> (if hi < x then hi else if x < 0 then 0 else x) = clampTo 0 hi x"
  by (simp add: clampTo_def)

lemma clampTo_code_inner:
  "0 < len \<Longrightarrow> (if x < 0 then 0 else if len \<le> x then len - 1 else x) = clampTo 0 (len - 1) x"
  by (simp add: clampTo_def)

lemma clampTo_range:
  assumes "lo \<le> hi"
  shows "clampTo lo hi x \<in> {lo..hi}"
  using assms by (auto simp: clampTo_def)

lemma GetIndex_loop_nil:
  "GetIndex_loop rmi key scale None nextLayer evals = (evals, Inl NilDeref)"
  by (subst GetIndex_loop.simps) simp

lemma GetIndex_loop_leaf:
  assumes "int nextLayer = depth rmi" "0 \<le> maxIndex rmi"
  shows "GetIndex_loop rmi key scale (Some node) nextLayer evals =
    (case predict node key of
       Inl e \<Rightarrow> (Suc evals, Inl e)
     | Inr p \<Rightarrow> (Suc evals, Inr (clampTo 0 (maxIndex rmi) (Int64 p))))"
  by (subst GetIndex_loop.simps)
    (simp add: assms(1) Let_def clampTo_code_leaf [OF assms(2)] split: sum.splits)

lemma GetIndex_loop_inner:
  assumes "int nextLayer \<noteq> depth rmi" "nextLayer < length (nodes rmi)"
    and "0 < length (nodes rmi ! nextLayer)" "prec scale = 53"
  shows "GetIndex_loop rmi key scale (Some node) nextLayer evals =
    (case predict node key of
       Inl e \<Rightarrow> (Suc evals, Inl e)
     | Inr p \<Rightarrow>
        (case Quo 53 p (NewFloat (maxIndex rmi)) of
           Inl e \<Rightarrow> (Suc evals, Inl e)
         | Inr fraction \<Rightarrow>
            (case Mul 53 fraction scale of
               Inl e \<Rightarrow> (Suc evals, Inl e)
             | Inr slot \<Rightarrow>
                (case Mul 53 scale (NewFloat (width rmi)) of
                   Inl e \<Rightarrow> (Suc evals, Inl e)
                 | Inr scale1 \<Rightarrow>
                     GetIndex_loop rmi key scale1
                       (nodes rmi ! nextLayer
                          ! nat (clampTo 0 (int (length (nodes rmi ! nextLayer)) - 1) (Int64 slot)))
                       (Suc nextLayer) (Suc evals)))))"
proof -
  let ?len = "int (length (nodes rmi ! nextLayer))"
  have len: "0 < ?len"
    using assms(3) by simp
  have idx: "\<not> clampTo 0 (?len - 1) x < 0" "\<not> ?len \<le> clampTo 0 (?len - 1) x" for x
    using clampTo_range [of 0 "?len - 1" x] len by simp_all
  have nl: "\<not> length (nodes rmi) \<le> nextLayer"
    using assms(2) by simp
  have c: "clampTo 0 (?len - 1) x = (if x < 0 then 0 else if ?len \<le> x then ?len - 1 else x)" for x
    using len by (simp add: clampTo_def)
  show ?thesis
    using assms(3)
    by (subst GetIndex_loop.simps)
      (simp add: assms(1,4) nl Let_def c split: sum.splits)
qed


section \<open>When the build succeeds\<close>

lemma clampLR_bounds:
  assumes "carveInv n rs left right" "0 \<le> n" "clampLR n left right = (l1, r1)"
  shows "0 \<le> l1 \<and> l1 \<le> r1 \<and> r1 \<le> n \<and> (l1 \<noteq> r1 \<longrightarrow> l1 < n)"
  using assms by (auto simp: carveInv_def clampLR_def split: if_splits)

lemma carveInv_next:
  assumes "carveInv n rs left right" "0 \<le> n" "clampLR n left right = (l1, r1)"
  shows "carveInv n rs r1 (nextRight n rs r1)"
  using assms by (auto simp: carveInv_def clampLR_def nextRight_def split: if_splits)

lemma carveInv_init:
  assumes "0 \<le> n"
  shows "carveInv n (n div wd) 0 (max 0 (n div wd))"
proof (cases "1 \<le> n div wd")
  case True
  then have "n \<noteq> 0"
    by auto
  then have "1 \<le> n"
    using assms by simp
  then show ?thesis
    using True by (simp add: carveInv_def)
next
  case False
  then show ?thesis
    by (simp add: carveInv_def)
qed

lemma cut_nonempty:
  assumes "0 \<le> l1" "l1 < r1" "l1 < int (length xs)"
  shows "cut xs l1 r1 \<noteq> []"
  using assms by (simp add: cut_def not_le)

lemma carve_slices:
  assumes inv: "carveInv (int (length indices)) rs left right"
    and len: "length indices = length values"
    and lr: "clampLR (int (length indices)) left right = (l1, r1)"
  shows "slice values l1 r1 = Inr (cut values l1 r1)"
    and "\<exists>subI off1. subRange indices offset l1 r1 = Inr (subI, off1)"
proof -
  have b: "0 \<le> l1" "l1 \<le> r1" "r1 \<le> int (length indices)" "l1 \<noteq> r1 \<longrightarrow> l1 < int (length indices)"
    using clampLR_bounds [OF inv _ lr] by simp_all
  show "slice values l1 r1 = Inr (cut values l1 r1)"
    using b len by (simp add: slice_def)
  show "\<exists>subI off1. subRange indices offset l1 r1 = Inr (subI, off1)"
  proof (cases "l1 = r1")
    case True
    then show ?thesis
      by (simp add: subRange_def)
  next
    case False
    then have "cut indices l1 r1 \<noteq> []"
      using b by (intro cut_nonempty) simp_all
    then obtain x xs where "cut indices l1 r1 = x # xs"
      by (cases "cut indices l1 r1") auto
    then show ?thesis
      using False b by (simp add: subRange_def slice_def)
  qed
qed


lemma subArgs_of_child:
  assumes "covers wd dp (Suc d) (loc * nat wd) (loc * nat wd + nat wd) l p"
  shows "subArgs wd a (l - d) (p - loc * nat wd ^ (l - d)) =
    subArgs wd (childArgs wd a ! (p div nat wd ^ (l - Suc d) - loc * nat wd)) (l - Suc d)
      (p mod nat wd ^ (l - Suc d))"
proof -
  have "Suc d \<le> l"
    using assms by (simp add: covers_def)
  then obtain k where l: "l = Suc d + k"
    using le_Suc_ex by blast
  have lk: "l - Suc d = k" "l - d = Suc k"
    using l by simp_all
  have lo: "loc * nat wd * nat wd ^ k \<le> p"
    using assms unfolding covers_def lk by simp
  show ?thesis
    unfolding lk by (rule subArgs_child_shift [OF lo])
qed

lemma subArgs_head:
  assumes "covers wd dp d q (Suc q) l p"
  shows "subArgs wd ((c # cs) ! (p div nat wd ^ (l - d) - q)) (l - d) (p mod nat wd ^ (l - d)) =
    subArgs wd c (l - d) (p - q * nat wd ^ (l - d))"
proof -
  have "q * nat wd ^ (l - d) \<le> p" "p < Suc q * nat wd ^ (l - d)"
    using assms unfolding covers_def by blast+
  from div_mod_in_block [OF this] show ?thesis
    by simp
qed

lemma subArgs_tail:
  assumes "covers wd dp d (Suc q) hi l p"
  shows "(c # cs) ! (p div nat wd ^ (l - d) - q) = cs ! (p div nat wd ^ (l - d) - Suc q)"
proof -
  have "Suc q * nat wd ^ (l - d) \<le> p" "p < hi * nat wd ^ (l - d)"
    using assms unfolding covers_def by blast+
  from div_beyond_block [OF this] show ?thesis
    by simp
qed

lemma covers_mono:
  assumes "covers wd dp d lo hi l p" "lo' \<le> lo" "hi \<le> hi'"
  shows "covers wd dp d lo' hi' l p"
proof -
  have "lo' * nat wd ^ (l - d) \<le> lo * nat wd ^ (l - d)" "hi * nat wd ^ (l - d) \<le> hi' * nat wd ^ (l - d)"
    using assms(2,3) by (simp_all add: mult_le_mono1)
  then show ?thesis
    using assms(1) unfolding covers_def by linarith
qed

lemma build_succeeds:
  "length indices = length values \<Longrightarrow>
     (\<forall>l. d \<le> l \<and> int l < dp \<longrightarrow> l < length ns \<and> Suc loc * nat wd ^ (l - d) \<le> length (ns ! l)) \<Longrightarrow>
     (\<forall>l p. covers wd dp d loc (Suc loc) l p \<longrightarrow>
        (\<exists>node. fitArgs (subArgs wd (values, indices, offset) (l - d)
                   (p - loc * nat wd ^ (l - d))) = Inr node)) \<Longrightarrow>
     int d < dp \<Longrightarrow>
     \<exists>ns'. buildRecursive wd dp ns values indices offset d loc = Inr ns'"
  "length indices = length values \<Longrightarrow>
     carveInv (int (length indices)) rs left right \<Longrightarrow>
     (\<forall>l. d \<le> l \<and> int l < dp \<longrightarrow>
        l < length ns \<and> (loc * nat wd + nat wd) * nat wd ^ (l - d) \<le> length (ns ! l)) \<Longrightarrow>
     (\<forall>l p. covers wd dp d (loc * nat wd + i) (loc * nat wd + nat wd) l p \<longrightarrow>
        (\<exists>node. fitArgs (subArgs wd
                   (children_loop (nat wd - i) values indices offset rs left right
                      ! (p div nat wd ^ (l - d) - (loc * nat wd + i)))
                   (l - d) (p mod nat wd ^ (l - d))) = Inr node)) \<Longrightarrow>
     int d < dp \<Longrightarrow>
     \<exists>ns'. buildChildren wd dp ns values indices offset d loc rs i left right = Inr ns'"
proof (induction wd dp ns "values" indices offset d loc
    and wd dp ns "values" indices offset d loc rs i left right
    rule: buildRecursive_buildChildren.induct)
  case (1 wd dp ns vs indices offset d loc)
  let ?a = "(vs, indices, offset)"
  let ?rs = "int (length vs) div wd"
  let ?W = "nat wd"
  have d: "d < length ns" "loc < length (ns ! d)"
    using "1.prems"(2) [rule_format, of d] "1.prems"(4) by simp_all
  have "covers wd dp d loc (Suc loc) d loc"
    using "1.prems"(4) by (simp add: covers_def)
  then obtain node where fit: "fitNode vs indices offset = Inr node"
    using "1.prems"(3) [rule_format, of d loc] by auto
  show ?case
  proof (cases "int d = dp - 1")
    case True
    then show ?thesis
      using d fit "1.prems"(4) by (simp add: buildRecursive_Inr)
  next
    case False
    let ?ns1 = "ns[d := (ns ! d)[loc := Some node]]"
    have st: "?ns1 = store ns d loc node"
      by (simp add: store_def)
    have g: "\<not> \<not> (int d < dp \<and> d < length ns \<and> loc < length (ns ! d))"
      using d "1.prems"(4) by simp
    have inv: "carveInv (int (length indices)) ?rs 0 (max 0 ?rs)"
      using carveInv_init [of "int (length vs)" wd] "1.prems"(1) by simp
    have shape: "\<forall>l. Suc d \<le> l \<and> int l < dp \<longrightarrow>
        l < length ?ns1 \<and> (loc * ?W + ?W) * ?W ^ (l - Suc d) \<le> length (?ns1 ! l)"
    proof (intro allI impI)
      fix l
      assume l: "Suc d \<le> l \<and> int l < dp"
      then have "l < length ns" "Suc loc * ?W ^ (l - d) \<le> length (ns ! l)"
        using "1.prems"(2) [rule_format, of l] by simp_all
      moreover have "l - d = Suc (l - Suc d)"
        using l by linarith
      ultimately show "l < length ?ns1 \<and> (loc * ?W + ?W) * ?W ^ (l - Suc d) \<le> length (?ns1 ! l)"
        unfolding st by (simp add: store_len store_lens algebra_simps)
    qed
    have fits: "\<forall>l p. covers wd dp (Suc d) (loc * ?W + 0) (loc * ?W + ?W) l p \<longrightarrow>
        (\<exists>node. fitArgs (subArgs wd
                   (children_loop (?W - 0) vs indices offset ?rs 0 (max 0 ?rs)
                      ! (p div ?W ^ (l - Suc d) - (loc * ?W + 0)))
                   (l - Suc d) (p mod ?W ^ (l - Suc d))) = Inr node)"
    proof (intro allI impI)
      fix l p
      assume "covers wd dp (Suc d) (loc * ?W + 0) (loc * ?W + ?W) l p"
      then have c: "covers wd dp (Suc d) (loc * ?W) (loc * ?W + ?W) l p"
        by simp
      then have "covers wd dp d loc (Suc loc) l p"
        using covers_node [of wd dp d loc l p] by simp
      then obtain nd where "fitArgs (subArgs wd ?a (l - d) (p - loc * ?W ^ (l - d))) = Inr nd"
        using "1.prems"(3) by blast
      then have "fitArgs (subArgs wd (childArgs wd ?a ! (p div ?W ^ (l - Suc d) - loc * ?W))
                   (l - Suc d) (p mod ?W ^ (l - Suc d))) = Inr nd"
        unfolding subArgs_of_child [OF c] .
      then show "\<exists>node. fitArgs (subArgs wd
                   (children_loop (?W - 0) vs indices offset ?rs 0 (max 0 ?rs)
                      ! (p div ?W ^ (l - Suc d) - (loc * ?W + 0)))
                   (l - Suc d) (p mod ?W ^ (l - Suc d))) = Inr node"
        by (simp add: childArgs_def Let_def)
    qed
    have dd: "int (Suc d) < dp"
      using "1.prems"(4) False by simp
    obtain ns' where "buildChildren wd dp ?ns1 vs indices offset (Suc d) loc ?rs 0 0 (max 0 ?rs)
        = Inr ns'"
      using "1.IH" [OF g fit refl False refl "1.prems"(1) inv shape fits dd] by blast
    then show ?thesis
      using d fit "1.prems"(4) False unfolding st by (simp add: buildRecursive_Inr)
  qed
next
  case (2 wd dp ns vs indices offset d loc rs i left right)
  let ?W = "nat wd"
  let ?n = "int (length indices)"
  let ?c = "\<lambda>l p. subArgs wd
          (children_loop (?W - i) vs indices offset rs left right
            ! (p div ?W ^ (l - d) - (loc * ?W + i)))
          (l - d) (p mod ?W ^ (l - d))"
  show ?case
  proof (cases "int i < wd")
    case False
    then show ?thesis
      by (subst buildChildren.simps) simp
  next
    case True
    obtain l1 r1 where lr: "clampLR ?n left right = (l1, r1)"
      by (cases "clampLR ?n left right")
    have pr: "(l1, r1) = clampLR ?n left right"
      using lr by simp
    have sl: "slice vs l1 r1 = Inr (cut vs l1 r1)"
      by (rule carve_slices(1) [OF "2.prems"(2,1) lr])
    obtain subI off1 where sr: "subRange indices offset l1 r1 = Inr (subI, off1)"
      using carve_slices(2) [OF "2.prems"(2,1) lr] by blast
    let ?subV = "cut vs l1 r1"
    have len: "length subI = length ?subV"
      by (rule subRange_length [OF sr sl "2.prems"(1)])
    have i: "i < ?W" "?W - i = Suc (?W - Suc i)"
      using True by simp_all
    let ?rest = "children_loop (?W - Suc i) vs indices off1 rs r1 (nextRight ?n rs r1)"
    have cl: "children_loop (?W - i) vs indices offset rs left right = (?subV, subI, off1) # ?rest"
      unfolding i(2) using children_loop_step [of indices offset left right subI off1 vs ?subV]
        sr sl by (simp add: lr)
    have shape1: "\<forall>l. d \<le> l \<and> int l < dp \<longrightarrow>
        l < length ns \<and> Suc (loc * ?W + i) * ?W ^ (l - d) \<le> length (ns ! l)"
    proof (intro allI impI)
      fix l
      assume "d \<le> l \<and> int l < dp"
      then have a: "l < length ns" "(loc * ?W + ?W) * ?W ^ (l - d) \<le> length (ns ! l)"
        using "2.prems"(3) by blast+
      have "Suc (loc * ?W + i) * ?W ^ (l - d) \<le> (loc * ?W + ?W) * ?W ^ (l - d)"
        using i(1) by (intro mult_le_mono1) simp
      then show "l < length ns \<and> Suc (loc * ?W + i) * ?W ^ (l - d) \<le> length (ns ! l)"
        using a by simp
    qed
    have fits1: "\<forall>l p. covers wd dp d (loc * ?W + i) (Suc (loc * ?W + i)) l p \<longrightarrow>
        (\<exists>node. fitArgs (subArgs wd (?subV, subI, off1) (l - d)
                   (p - (loc * ?W + i) * ?W ^ (l - d))) = Inr node)"
    proof (intro allI impI)
      fix l p
      assume c: "covers wd dp d (loc * ?W + i) (Suc (loc * ?W + i)) l p"
      have "covers wd dp d (loc * ?W + i) (loc * ?W + ?W) l p"
        by (rule covers_mono [OF c]) (use i(1) in simp_all)
      then obtain nd where "fitArgs (?c l p) = Inr nd"
        using "2.prems"(4) by blast
      then show "\<exists>node. fitArgs (subArgs wd (?subV, subI, off1) (l - d)
                   (p - (loc * ?W + i) * ?W ^ (l - d))) = Inr node"
        unfolding cl subArgs_head [OF c] by blast
    qed
    obtain ns1 where br: "buildRecursive wd dp ns ?subV subI off1 d (loc * ?W + i) = Inr ns1"
      using "2.IH"(1) [OF True refl pr sr refl sl len shape1 fits1 "2.prems"(5)] by blast
    have b: "builds wd dp ns ns1 d (loc * ?W + i) (Suc (loc * ?W + i))
        (\<lambda>l p. subArgs wd (?subV, subI, off1) (l - d) (p - (loc * ?W + i) * ?W ^ (l - d)))"
      by (rule build_builds(1) [OF br len])
    have inv: "carveInv ?n rs r1 (nextRight ?n rs r1)"
      by (rule carveInv_next [OF "2.prems"(2) _ lr]) simp
    have shape2: "\<forall>l. d \<le> l \<and> int l < dp \<longrightarrow>
        l < length ns1 \<and> (loc * ?W + ?W) * ?W ^ (l - d) \<le> length (ns1 ! l)"
      using "2.prems"(3) builds_len [OF b] builds_lens [OF b] by simp
    have fits2: "\<forall>l p. covers wd dp d (loc * ?W + Suc i) (loc * ?W + ?W) l p \<longrightarrow>
        (\<exists>node. fitArgs (subArgs wd
                   (?rest ! (p div ?W ^ (l - d) - (loc * ?W + Suc i)))
                   (l - d) (p mod ?W ^ (l - d))) = Inr node)"
    proof (intro allI impI)
      fix l p
      assume c: "covers wd dp d (loc * ?W + Suc i) (loc * ?W + ?W) l p"
      then have c': "covers wd dp d (Suc (loc * ?W + i)) (loc * ?W + ?W) l p"
        by simp
      have "covers wd dp d (loc * ?W + i) (loc * ?W + ?W) l p"
        by (rule covers_mono [OF c]) simp_all
      then obtain nd where "fitArgs (?c l p) = Inr nd"
        using "2.prems"(4) by blast
      then show "\<exists>node. fitArgs (subArgs wd
                   (?rest ! (p div ?W ^ (l - d) - (loc * ?W + Suc i)))
                   (l - d) (p mod ?W ^ (l - d))) = Inr node"
        unfolding cl subArgs_tail [OF c'] by simp
    qed
    obtain ns' where bc: "buildChildren wd dp ns1 vs indices off1 d loc rs (Suc i) r1
        (nextRight ?n rs r1) = Inr ns'"
      using "2.IH"(2) [OF True refl pr sr refl sl br "2.prems"(1) inv shape2 fits2 "2.prems"(5)]
      by blast
    show ?thesis
      using True sr sl br bc by (subst buildChildren.simps) (simp add: lr)
  qed
qed

lemma makeLayers_succeeds: "0 \<le> s \<Longrightarrow> 0 \<le> wd \<Longrightarrow> \<exists>ls. makeLayers k s wd = Inr ls"
proof (induction k arbitrary: s)
  case 0
  then show ?case by simp
next
  case (Suc k)
  have "0 \<le> s * wd"
    using Suc.prems by simp
  from Suc.IH [OF this Suc.prems(2)] show ?case
    using Suc.prems(1) by auto
qed

lemma NewRMI_succeeds:
  assumes "sorted values" and wd: "1 \<le> wd" and dp: "1 \<le> dp"
    and fits: "\<And>l p. l < nat dp \<Longrightarrow> p < nat wd ^ l \<Longrightarrow>
                 \<exists>node. fitArgs (slotArgs wd values l p) = Inr node"
  shows "\<exists>rmi. NewRMI values wd dp = Inr rmi"
proof -
  let ?idx = "map int [0..<length values]"
  obtain ns where ml: "makeLayers (nat dp) 1 wd = Inr ns"
    using makeLayers_succeeds [of 1 wd "nat dp"] wd by auto
  have ns: "length ns = nat dp" "\<And>l. l < nat dp \<Longrightarrow> length (ns ! l) = nat wd ^ l"
    using makeLayers_shape [OF ml] wd by (simp_all add: nat_power_eq)
  have shape: "\<forall>l. 0 \<le> l \<and> int l < dp \<longrightarrow> l < length ns \<and> Suc 0 * nat wd ^ (l - 0) \<le> length (ns ! l)"
    using ns by auto
  have f: "\<forall>l p. covers wd dp 0 0 (Suc 0) l p \<longrightarrow>
        (\<exists>node. fitArgs (subArgs wd (values, ?idx, 0) (l - 0) (p - 0 * nat wd ^ (l - 0))) = Inr node)"
  proof (intro allI impI)
    fix l p
    assume "covers wd dp 0 0 (Suc 0) l p"
    then have lp: "l < nat dp" "p < nat wd ^ l"
      by (simp_all add: covers_root zless_nat_eq_int_zless)
    from fits [OF this] show "\<exists>node. fitArgs (subArgs wd (values, ?idx, 0) (l - 0)
        (p - 0 * nat wd ^ (l - 0))) = Inr node"
      using subArgs_slotArgs [OF lp(2), of "values"] by simp
  qed
  have "\<exists>ns'. buildRecursive wd dp ns values ?idx 0 0 0 = Inr ns'"
    by (rule build_succeeds(1) [OF _ shape f]) (use dp in simp_all)
  then show ?thesis
    using assms(1) ml dp by (auto simp: NewRMI_def SliceIsSorted_sorted)
qed

lemma children_loop_degenerate:
  "int (length indices) \<le> 1 \<Longrightarrow> right \<le> int (length indices) \<Longrightarrow>
     children_loop k values indices offset rs 0 right = replicate k ([], [], offset)"
proof (induction k arbitrary: right)
  case 0
  then show ?case by simp
next
  case (Suc k)
  have lr: "clampLR (int (length indices)) 0 right = (0, 0)"
    using Suc.prems by (auto simp: clampLR_def)
  have nr: "nextRight (int (length indices)) rs 0 \<le> int (length indices)"
    using Suc.prems(1) by (simp add: nextRight_def)
  show ?case
    using Suc.IH [OF Suc.prems(1) nr] by (simp add: lr cut_def)
qed

lemma childArgs_degenerate:
  assumes "length indices < 2" "length values = length indices" "1 \<le> wd"
  shows "childArgs wd (values, indices, offset) = replicate (nat wd) ([], [], offset)"
proof -
  let ?n = "int (length indices)"
  have "?n div wd \<le> ?n"
    using assms(3) by (metis div_by_1 of_nat_0_le_iff zdiv_mono2 zero_less_one)
  then have r: "max 0 (?n div wd) \<le> ?n"
    by simp
  have n: "?n \<le> 1"
    using assms(1) by simp
  show ?thesis
    using children_loop_degenerate [OF n r] by (simp add: childArgs_def Let_def assms(2))
qed

lemma slotArgs_empty: "1 \<le> wd \<Longrightarrow> p < nat wd ^ l \<Longrightarrow> slotArgs wd [] l p = ([], [], 0)"
proof (induction l arbitrary: p)
  case 0
  then show ?case by simp
next
  case (Suc l)
  have W: "0 < nat wd"
    using Suc.prems(1) by simp
  have "p div nat wd < nat wd ^ l"
    using Suc.prems(2) W by (simp add: less_mult_imp_div_less mult.commute)
  from Suc.IH [OF Suc.prems(1) this] show ?case
    using W Suc.prems(1) by (simp add: childArgs_degenerate)
qed

lemma SetInt_0: "SetInt 0 0 = Finite 64 False 0"
  by (simp add: SetInt_def)

lemma predict_zeroNode: "predict zeroNode key = Inr (Finite 53 False 0)"
proof -
  have "Mul 53 (Finite 53 False 0) (SetInt 0 key) = Inr (Finite 53 (neg (SetInt 0 key)) 0)"
    by (simp add: Mul_fin zprec_def)
  moreover have "Add 53 (Finite 53 s 0) (Finite 64 False 0) = Inr (Finite 53 False 0)" for s
    by (simp add: Add_fin zprec_def rounded_def sval_def)
  ultimately show ?thesis
    by (simp add: predict_def zeroNode_def SetInt_0)
qed

lemma empty_tree:
  assumes "1 \<le> wd" "1 \<le> dp"
  shows "\<exists>rmi. NewRMI [] wd dp = Inr rmi \<and> maxIndex rmi = - 1
    \<and> (\<forall>l<nat dp. \<forall>p<nat wd ^ l. nodes rmi ! l ! p = Some zeroNode)"
proof -
  have fit: "fitArgs (slotArgs wd [] l p) = Inr zeroNode" if "p < nat wd ^ l" for l p
    using slotArgs_empty [OF assms(1) that] by (simp add: fitNode_def zeroNode_def)
  then obtain rmi where r: "NewRMI [] wd dp = Inr rmi"
    using NewRMI_succeeds [of "[]" wd dp] assms by auto
  have "nodes rmi ! l ! p = Some zeroNode" if "l < nat dp" "p < nat wd ^ l" for l p
    using NewRMI_nodes(3) [OF assms(1) r that] fit [OF that(2)] by auto
  moreover have "maxIndex rmi = - 1"
    using r by (auto elim!: NewRMI_Inr)
  ultimately show ?thesis
    using r by blast
qed


lemma NewFloat_nonzero: "n \<noteq> 0 \<Longrightarrow> \<not> is_zero (NewFloat n)"
proof -
  assume "n \<noteq> 0"
  then have "0 < round_to 53 (of_int \<bar>n\<bar>)"
    by (intro round_to_pos) auto
  then show ?thesis
    by (simp add: NewFloat_def is_zero_def)
qed

lemma Int64_zero: "Int64 (Finite p s 0) = 0"
  by (simp add: Int64_def MaxInt64_def MinInt64_def)

lemma Mul_scale:
  assumes "fin scale" "prec scale = 53"
  obtains scale1 where "Mul 53 scale (NewFloat n) = Inr scale1" "fin scale1" "prec scale1 = 53"
  using Mul_finE [OF assms(1) fin_NewFloat, of 53 n] by (metis zprec_def zero_neq_numeral)

lemma zero_tree_query:
  assumes shape: "length (nodes rmi) = nat (depth rmi)"
      "\<And>l. l < nat (depth rmi) \<Longrightarrow> length (nodes rmi ! l) = nat (width rmi) ^ l"
    and w: "1 \<le> width rmi" and mi: "maxIndex rmi = - 1"
    and z: "\<And>l p. l < nat (depth rmi) \<Longrightarrow> p < nat (width rmi) ^ l \<Longrightarrow>
              nodes rmi ! l ! p = Some zeroNode"
  shows "k = nat (depth rmi) - nextLayer \<Longrightarrow> 1 \<le> nextLayer \<Longrightarrow> nextLayer \<le> nat (depth rmi)
    \<Longrightarrow> fin scale \<Longrightarrow> prec scale = 53 \<Longrightarrow>
    GetIndex_loop rmi key scale (Some zeroNode) nextLayer evals = (evals + Suc k, Inr (- 1))"
proof (induction k arbitrary: nextLayer scale evals)
  case 0
  then have leaf: "int nextLayer = depth rmi"
    by simp
  show ?case
    by (subst GetIndex_loop.simps) (simp add: leaf predict_zeroNode Int64_zero mi)
next
  case (Suc k)
  then have nl: "int nextLayer \<noteq> depth rmi" "nextLayer < nat (depth rmi)"
    by simp_all
  have nl2: "nextLayer < length (nodes rmi)"
    using nl(2) shape(1) by simp
  have len: "length (nodes rmi ! nextLayer) = nat (width rmi) ^ nextLayer"
    using shape(2) [OF nl(2)] .
  have pos: "0 < length (nodes rmi ! nextLayer)"
    using len w by simp
  have q: "Quo 53 (Finite 53 False 0) (NewFloat (- 1)) = Inr (Finite 53 True 0)"
    using NewFloat_nonzero [of "- 1"]
    by (simp add: Quo_def Let_def is_zero_def is_inf_def zprec_def NewFloat_def)
  have mu: "Mul 53 (Finite 53 True 0) scale = Inr (Finite 53 (\<not> neg scale) 0)"
    using Suc.prems(4) by (simp add: Mul_fin zprec_def)
  obtain scale1 where s1: "Mul 53 scale (NewFloat (width rmi)) = Inr scale1" "fin scale1"
      "prec scale1 = 53"
    using Mul_scale [OF Suc.prems(4,5)] by blast
  have c0: "clampTo 0 (int (length (nodes rmi ! nextLayer)) - 1) 0 = 0"
    using pos by (simp add: clampTo_def)
  have nd: "nodes rmi ! nextLayer ! 0 = Some zeroNode"
    using z [OF nl(2), of 0] w by simp
  have k: "k = nat (depth rmi) - Suc nextLayer"
    using Suc.prems(1) by simp
  have "GetIndex_loop rmi key scale1 (Some zeroNode) (Suc nextLayer) (Suc evals)
      = (Suc evals + Suc k, Inr (- 1))"
    using nl(2) by (intro Suc.IH [OF k _ _ s1(2,3)]) simp_all
  then show ?case
    unfolding GetIndex_loop_inner [OF nl(1) nl2 pos Suc.prems(5)]
    by (simp add: predict_zeroNode q mu Int64_zero s1(1) c0 nd mi)
qed

section \<open>Finite models and queries that return\<close>

text \<open>
  A variance that is computed as zero makes the regression panic: the covariance is zero
  as well, and the division of zero by zero is \<open>ErrNaN\<close>. A regression that returns,
  returns finite coefficients; so every node of a built tree has a finite slope and a
  finite intercept.
\<close>

lemma is_zero_rounded: "0 < p \<Longrightarrow> is_zero (rounded p z v) \<longleftrightarrow> v = 0"
  using round_to_pos [of "\<bar>v\<bar>" p] by (auto simp: rounded_def is_zero_def)

lemma nneg_sval: "nneg x \<Longrightarrow> sval x = mag x \<and> 0 \<le> mag x"
  by (simp add: nneg_def sval_def fin_def)

lemma is_zero_mag: "is_zero x \<longleftrightarrow> \<not> is_inf x \<and> mag x = 0"
  by (cases x) (simp_all add: is_zero_def is_inf_def)

lemma variance_loop_zero:
  "nneg acc \<Longrightarrow> fin mu \<Longrightarrow> variance_loop acc vs mu = Inr var \<Longrightarrow>
     nneg var \<and> (is_zero var \<longrightarrow> is_zero acc \<and> (\<forall>v\<in>set vs. sval (SetInt 0 v) = sval mu))"
proof (induction vs arbitrary: acc)
  case Nil
  then show ?case by simp
next
  case (Cons v vs)
  let ?t = "SetInt 0 v"
  let ?p = "zprec (prec ?t) ?t mu"
  let ?d = "rounded ?p (neg ?t \<and> \<not> neg mu) (sval ?t - sval mu)"
  have p: "0 < ?p"
    using Cons.prems(2) by (intro zprec_fin) simp_all
  have d: "Sub (prec ?t) ?t mu = Inr ?d" "fin ?d"
    using Cons.prems(2) p by (simp_all add: Sub_fin fin_rounded)
  let ?q = "zprec (prec ?d) ?d ?d"
  let ?sq = "Finite ?q (neg ?d \<noteq> neg ?d) (round_to ?q (mag ?d * mag ?d))"
  have q: "0 < ?q"
    using d(2) by (intro zprec_fin)
  have sq: "Mul (prec ?d) ?d ?d = Inr ?sq" "fin ?sq" "\<not> neg ?sq"
    using d(2) q by (simp_all add: Mul_fin round_to_nonneg fin_mag)
  have a: "fin acc" "sval acc = mag acc" "0 \<le> mag acc" "\<not> neg acc"
    using Cons.prems(1) nneg_sval [of acc] by (simp_all add: nneg_def)
  let ?s = "sval acc + sval ?sq"
  let ?a = "rounded (prec acc) (neg acc \<and> neg ?sq) ?s"
  have s: "?s = mag acc + mag ?sq" "0 \<le> mag ?sq"
    using a sq by (simp_all add: sval_def fin_mag)
  have acc': "Add (prec acc) acc ?sq = Inr ?a"
    using a(1) sq(2) by (simp add: Add_fin zprec_self)
  have na: "nneg ?a"
    using a s fin_prec [OF a(1)] by (simp add: nneg_def fin_rounded) (simp add: rounded_def)
  have rest: "variance_loop ?a vs mu = Inr var"
    using Cons.prems(3) d(1) sq(1) acc' by (simp add: Let_def)
  note ih = Cons.IH [OF na Cons.prems(2) rest]
  have "is_zero acc \<and> sval ?t = sval mu" if "is_zero ?a"
  proof -
    have "?s = 0"
      using that fin_prec [OF a(1)] by (simp add: is_zero_rounded)
    then have z: "mag acc = 0" "mag ?sq = 0"
      using s a(3) by linarith+
    then have "mag ?d * mag ?d = 0"
      using q round_to_eq_0_iff [of "mag ?d * mag ?d" ?q] fin_mag [OF d(2)] by simp
    then have "is_zero ?d"
      using d(2) by (simp add: is_zero_mag fin_def)
    then have "sval ?t - sval mu = 0"
      using p by (simp add: is_zero_rounded)
    then show ?thesis
      using z(1) a(1) by (simp add: is_zero_mag fin_def)
  qed
  then show ?case
    using ih by auto
qed

lemma covariance_loop_zero:
  "fin acc \<Longrightarrow> is_zero acc \<Longrightarrow> fin mx \<Longrightarrow> fin my \<Longrightarrow> length xs \<le> length ys \<Longrightarrow>
     \<forall>x\<in>set xs. sval (SetInt 0 x) = sval mx \<Longrightarrow>
     \<exists>cov. covariance_loop acc xs ys mx my = Inr cov \<and> fin cov \<and> is_zero cov"
proof (induction xs arbitrary: acc ys)
  case Nil
  then show ?case by simp
next
  case (Cons x xs)
  then obtain y ys' where ys: "ys = y # ys'" "length xs \<le> length ys'"
    by (cases ys) auto
  let ?tx = "SetInt 0 x"
  let ?p = "zprec (prec ?tx) ?tx mx"
  have p: "0 < ?p"
    using Cons.prems(3) by (intro zprec_fin) simp_all
  have "sval ?tx - sval mx = 0"
    using Cons.prems(6) by simp
  then have dx: "Sub (prec ?tx) ?tx mx = Inr (Finite ?p (neg ?tx \<and> \<not> neg mx) 0)"
    using Cons.prems(3) by (simp add: Sub_fin rounded_def)
  let ?dx = "Finite ?p (neg ?tx \<and> \<not> neg mx) 0"
  have fdx: "fin ?dx"
    using p by simp
  obtain dy where dy: "Sub (prec (SetInt 0 y)) (SetInt 0 y) my = Inr dy" "fin dy"
    using Sub_finE [OF fin_SetInt Cons.prems(4)] by metis
  let ?q = "zprec 0 ?dx dy"
  have xy: "Mul 0 ?dx dy = Inr (Finite ?q (neg ?dx \<noteq> neg dy) 0)"
    using fdx dy(2) by (simp add: Mul_fin)
  let ?xy = "Finite ?q (neg ?dx \<noteq> neg dy) 0"
  have q: "0 < ?q"
    using fdx dy(2) by (intro zprec_fin)
  have fxy: "fin ?xy"
    using q by simp
  have a0: "sval acc = 0" "0 < prec acc"
    using Cons.prems(1,2) by (simp_all add: is_zero_mag sval_def fin_def)
  let ?a = "Finite (prec acc) (neg acc \<and> neg ?xy) 0"
  have acc': "Add (prec acc) acc ?xy = Inr ?a"
    using Cons.prems(1) fxy a0 by (simp add: Add_fin zprec_self rounded_def sval_def)
  have fa: "fin ?a" "is_zero ?a"
    using a0(2) by (simp_all add: is_zero_def)
  have "\<forall>u\<in>set xs. sval (SetInt 0 u) = sval mx"
    using Cons.prems(6) by simp
  from Cons.IH [OF fa Cons.prems(3,4) ys(2) this] show ?case
    using dx dy(1) xy acc' ys(1) by (simp add: Let_def)
qed

lemma coefficients_zero_variance:
  assumes "keys \<noteq> []" "length keys \<le> length ranks"
    and "mean keys = Inr meanX" "variance keys meanX = Inr var" "is_zero var"
  shows "coefficients keys ranks = Inl ErrNaN"
proof -
  have mxf: "fin meanX"
    using mean_fin [OF assms(1)] assms(3) by auto
  have "ranks \<noteq> []"
    using assms(1,2) by auto
  then obtain meanY where my: "mean ranks = Inr meanY" "fin meanY"
    using mean_fin by blast
  have "\<forall>v\<in>set keys. sval (SetInt 0 v) = sval meanX"
    using variance_loop_zero [OF nneg_NewFloat [of 0] mxf, of keys var] assms(4,5)
    by (simp add: variance_def)
  then obtain cov where cov: "covariance keys ranks meanX meanY = Inr cov" "is_zero cov"
    using covariance_loop_zero [OF fin_NewFloat _ mxf my(2) assms(2), of 0]
    by (auto simp: covariance_def is_zero_def)
  have "Quo (prec cov) cov var = Inl ErrNaN"
    using cov(2) assms(5) by (simp add: Quo_def)
  then show ?thesis
    using assms(3,4) my(1) cov(1) by (simp add: coefficients_def)
qed

lemma coefficients_fin:
  assumes "coefficients keys ranks = Inr (b0, b1, w0)" "keys \<noteq> []" "length keys \<le> length ranks"
  shows "fin b0 \<and> fin b1"
proof -
  obtain meanX where mx: "mean keys = Inr meanX" "fin meanX"
    using mean_fin [OF assms(2)] by blast
  have "ranks \<noteq> []"
    using assms(2,3) by auto
  then obtain meanY where my: "mean ranks = Inr meanY" "fin meanY"
    using mean_fin by blast
  obtain cov where cov: "covariance keys ranks meanX meanY = Inr cov" "fin cov"
    using covariance_loop_fin [OF fin_NewFloat mx(2) my(2) assms(3), of 0]
    by (auto simp: covariance_def)
  obtain var where var: "variance keys meanX = Inr var" "fin var"
    using variance_loop_fin [OF fin_NewFloat mx(2), of 0 keys] by (auto simp: variance_def)
  have nz: "\<not> is_zero var"
    using coefficients_zero_variance [OF assms(2,3) mx(1) var(1)] assms(1) by auto
  obtain s where s: "Quo (prec cov) cov var = Inr s" "fin s"
    using Quo_finE [OF cov(2) var(2) nz] by metis
  obtain pr where pr: "Mul (prec meanX) meanX s = Inr pr" "fin pr"
    using Mul_finE [OF mx(2) s(2)] by metis
  obtain ic where ic: "Sub 0 meanY pr = Inr ic" "fin ic"
    using Sub_finE [OF my(2) pr(2)] by metis
  have "b0 = ic \<and> b1 = s"
    using assms(1) mx(1) my(1) cov(1) var(1) s(1) pr(1) ic(1)
    by (auto simp: coefficients_def Let_def split: sum.splits)
  then show ?thesis
    using ic(2) s(2) by simp
qed

lemma fitNode_fin:
  assumes "fitNode vs ranks off = Inr node" "length vs = length ranks"
  shows "fin (m node) \<and> fin (b node)"
proof (cases "2 \<le> length ranks")
  case True
  then obtain b0 b1 w0 where c: "coefficients vs ranks = Inr (b0, b1, w0)"
      and n: "node = \<lparr>m = b1, b = b0, w = w0\<rparr>"
    using assms(1) by (auto simp: fitNode_def split: sum.splits)
  have "vs \<noteq> []"
    using True assms(2) by auto
  from coefficients_fin [OF c this] show ?thesis
    using n assms(2) by simp
next
  case False
  then show ?thesis
    using assms(1) by (auto simp: fitNode_def)
qed

text \<open>
  On a tree whose nodes are finite, the loop of \<open>GetIndex\<close> returns after one model
  evaluation on each layer from \<open>nextLayer\<close> on, unless \<open>maxIndex\<close> is 0 and there is a
  layer below: the division by \<open>maxIndex\<close> is the only operation of the loop that can
  panic on finite numbers.
\<close>

lemma length_cut: "length (cut xs lo hi) = min (nat hi - nat lo) (length xs - nat lo)"
  by (simp add: cut_def min.commute)

lemma children_loop_lengths:
  "length indices = length values \<Longrightarrow>
     (vs, ranks, off) \<in> set (children_loop k values indices offset rs left right) \<Longrightarrow>
     length vs = length ranks"
proof (induction k arbitrary: offset left right)
  case 0
  then show ?case by simp
next
  case (Suc k)
  obtain l1 r1 where lr: "clampLR (int (length indices)) left right = (l1, r1)"
    by (cases "clampLR (int (length indices)) left right")
  let ?sub = "if l1 \<noteq> r1 then cut indices l1 r1 else []"
  let ?off = "if ?sub = [] then offset else hd ?sub"
  from Suc.prems(2) have "(vs, ranks, off) = (cut values l1 r1, ?sub, ?off)
      \<or> (vs, ranks, off) \<in> set (children_loop k values indices ?off rs r1
               (nextRight (int (length indices)) rs r1))"
    by (simp add: lr Let_def case_list_hd)
  then show ?case
  proof
    assume "(vs, ranks, off) = (cut values l1 r1, ?sub, ?off)"
    then show ?thesis
      using Suc.prems(1) by (auto simp: length_cut)
  next
    assume "(vs, ranks, off) \<in> set (children_loop k values indices ?off rs r1
               (nextRight (int (length indices)) rs r1))"
    then show ?thesis
      by (rule Suc.IH [OF Suc.prems(1)])
  qed
qed

lemma slotArgs_lengths:
  "p < nat wd ^ l \<Longrightarrow> slotArgs wd values l p = (vs, ranks, off) \<Longrightarrow> length vs = length ranks"
proof (induction l arbitrary: p vs ranks off)
  case 0
  then show ?case by auto
next
  case (Suc l)
  have W: "0 < nat wd"
    using Suc.prems(1) by (cases "nat wd = 0") auto
  have pd: "p div nat wd < nat wd ^ l"
    using Suc.prems(1) W by (simp add: less_mult_imp_div_less mult.commute)
  obtain pv pr po where par: "slotArgs wd values l (p div nat wd) = (pv, pr, po)"
    by (cases "slotArgs wd values l (p div nat wd)")
  have len: "length pr = length pv"
    using Suc.IH [OF pd par] by simp
  have "p mod nat wd < length (childArgs wd (pv, pr, po))"
    using W by simp
  then have "(vs, ranks, off) \<in> set (childArgs wd (pv, pr, po))"
    using Suc.prems(2) par by (metis nth_mem slotArgs.simps(2))
  then show ?case
    using children_loop_lengths [OF len] by (auto simp: childArgs_def Let_def)
qed

lemma predict_fin:
  assumes "fin (m node)" "fin (b node)"
  shows "\<exists>res. predict node key = Inr res \<and> fin res"
proof -
  obtain r where r: "Mul 53 (m node) (SetInt 0 key) = Inr r" "fin r"
    using Mul_finE [OF assms(1) fin_SetInt] by metis
  obtain res where "Add 53 r (b node) = Inr res" "fin res"
    using Add_finE [OF r(2) assms(2)] by metis
  then show ?thesis
    using r(1) by (simp add: predict_def)
qed

lemma GetIndex_loop_total:
  assumes shape: "length (nodes rmi) = nat (depth rmi)"
      "\<And>l. l < nat (depth rmi) \<Longrightarrow> length (nodes rmi ! l) = nat (width rmi) ^ l"
    and w: "1 \<le> width rmi"
    and nd: "\<And>l p. l < nat (depth rmi) \<Longrightarrow> p < nat (width rmi) ^ l \<Longrightarrow>
               \<exists>node. nodes rmi ! l ! p = Some node \<and> fin (m node) \<and> fin (b node)"
    and mi: "maxIndex rmi \<noteq> 0 \<or> depth rmi = 1"
  shows "k = nat (depth rmi) - nextLayer \<Longrightarrow> 1 \<le> nextLayer \<Longrightarrow> nextLayer \<le> nat (depth rmi)
    \<Longrightarrow> fin scale \<Longrightarrow> prec scale = 53 \<Longrightarrow> position < nat (width rmi) ^ (nextLayer - 1) \<Longrightarrow>
    \<exists>q node res. q < nat (width rmi) ^ (nat (depth rmi) - 1)
      \<and> nodes rmi ! (nat (depth rmi) - 1) ! q = Some node \<and> predict node key = Inr res
      \<and> GetIndex_loop rmi key scale (nodes rmi ! (nextLayer - 1) ! position) nextLayer evals
          = (evals + Suc k,
             Inr (if maxIndex rmi < Int64 res then maxIndex rmi
                  else if Int64 res < 0 then 0 else Int64 res))"
proof (induction k arbitrary: nextLayer scale evals position)
  case 0
  then have leaf: "int nextLayer = depth rmi" "nextLayer - 1 = nat (depth rmi) - 1"
    by simp_all
  have "nextLayer - 1 < nat (depth rmi)"
    using "0.prems"(2,3) by simp
  then obtain node where node: "nodes rmi ! (nextLayer - 1) ! position = Some node"
      "fin (m node)" "fin (b node)"
    using nd [OF _ "0.prems"(6)] by blast
  obtain res where res: "predict node key = Inr res"
    using predict_fin [OF node(2,3)] by blast
  have "GetIndex_loop rmi key scale (Some node) nextLayer evals
      = (evals + Suc 0,
         Inr (if maxIndex rmi < Int64 res then maxIndex rmi
              else if Int64 res < 0 then 0 else Int64 res))"
    by (subst GetIndex_loop.simps) (simp add: leaf(1) res Let_def)
  then show ?case
    using node(1) res "0.prems"(6) leaf(2) by auto
next
  case (Suc k)
  then have nl: "int nextLayer \<noteq> depth rmi" "nextLayer < nat (depth rmi)"
    by simp_all
  have nl2: "nextLayer < length (nodes rmi)"
    using nl(2) shape(1) by simp
  have len: "length (nodes rmi ! nextLayer) = nat (width rmi) ^ nextLayer"
    using shape(2) [OF nl(2)] .
  have pos: "0 < length (nodes rmi ! nextLayer)"
    using len w by simp
  have mi0: "maxIndex rmi \<noteq> 0"
    using mi nl Suc.prems(2) by auto
  have "nextLayer - 1 < nat (depth rmi)"
    using nl(2) by simp
  then obtain node where node: "nodes rmi ! (nextLayer - 1) ! position = Some node"
      "fin (m node)" "fin (b node)"
    using nd [OF _ Suc.prems(6)] by blast
  obtain res where res: "predict node key = Inr res" "fin res"
    using predict_fin [OF node(2,3)] by blast
  obtain fr where fr: "Quo 53 res (NewFloat (maxIndex rmi)) = Inr fr" "fin fr"
    using Quo_finE [OF res(2) fin_NewFloat NewFloat_nonzero [OF mi0]] by metis
  obtain sl where sl: "Mul 53 fr scale = Inr sl"
    using Mul_finE [OF fr(2) Suc.prems(4)] by metis
  obtain scale1 where s1: "Mul 53 scale (NewFloat (width rmi)) = Inr scale1" "fin scale1"
      "prec scale1 = 53"
    using Mul_scale [OF Suc.prems(4,5)] by blast
  let ?q = "nat (clampTo 0 (int (length (nodes rmi ! nextLayer)) - 1) (Int64 sl))"
  have "clampTo 0 (int (length (nodes rmi ! nextLayer)) - 1) (Int64 sl)
      \<le> int (length (nodes rmi ! nextLayer)) - 1"
    using clampTo_range [of 0 "int (length (nodes rmi ! nextLayer)) - 1" "Int64 sl"] pos
    by simp
  then have "?q < length (nodes rmi ! nextLayer)"
    using pos by linarith
  then have q: "?q < nat (width rmi) ^ (Suc nextLayer - 1)"
    unfolding len by simp
  have k: "k = nat (depth rmi) - Suc nextLayer"
    using Suc.prems(1) by simp
  obtain q' node' res' where r: "q' < nat (width rmi) ^ (nat (depth rmi) - 1)"
      "nodes rmi ! (nat (depth rmi) - 1) ! q' = Some node'" "predict node' key = Inr res'"
      "GetIndex_loop rmi key scale1 (nodes rmi ! (Suc nextLayer - 1) ! ?q) (Suc nextLayer)
          (Suc evals)
        = (Suc evals + Suc k,
           Inr (if maxIndex rmi < Int64 res' then maxIndex rmi
                else if Int64 res' < 0 then 0 else Int64 res'))"
    using Suc.IH [OF k _ _ s1(2,3) q, of "Suc evals"] nl(2) by auto
  have "GetIndex_loop rmi key scale (Some node) nextLayer evals
      = (evals + Suc (Suc k),
           Inr (if maxIndex rmi < Int64 res' then maxIndex rmi
                else if Int64 res' < 0 then 0 else Int64 res'))"
    unfolding GetIndex_loop_inner [OF nl(1) nl2 pos Suc.prems(5)]
    using r(4) by (simp add: res(1) fr(1) sl s1(1))
  then show ?case
    using r(1,2,3) node(1) by auto
qed

lemma built_nodes_fin:
  assumes "1 \<le> wd" "NewRMI values wd dp = Inr rmi" "l < nat dp" "p < nat wd ^ l"
  shows "\<exists>node. nodes rmi ! l ! p = Some node \<and> fin (m node) \<and> fin (b node)"
proof -
  obtain node where node: "nodes rmi ! l ! p = Some node"
      "fitArgs (slotArgs wd values l p) = Inr node"
    using NewRMI_nodes(3) [OF assms] by blast
  obtain vs ranks off where s: "slotArgs wd values l p = (vs, ranks, off)"
    by (cases "slotArgs wd values l p")
  have "fitNode vs ranks off = Inr node"
    using node(2) s by (simp add: fitArgs_def)
  then have "fin (m node) \<and> fin (b node)"
    using slotArgs_lengths [OF assms(4) s] by (rule fitNode_fin)
  then show ?thesis
    using node(1) by blast
qed

lemma GetIndex_run_total:
  assumes "1 \<le> wd" and "1 \<le> dp" and "NewRMI values wd dp = Inr rmi"
    and "length values \<noteq> 1 \<or> dp = 1"
  shows "\<exists>i. GetIndex_run rmi key = (nat dp, Inr i)
    \<and> (if maxIndex rmi < 0 then i = maxIndex rmi \<or> i = 0 else 0 \<le> i \<and> i \<le> maxIndex rmi)"
proof -
  have f: "width rmi = wd" "depth rmi = dp" "root rmi = nodes rmi ! 0 ! 0"
      "maxIndex rmi = int (length values) - 1"
    using assms(3) by (auto elim!: NewRMI_Inr)
  note n = NewRMI_nodes [OF assms(1,3)]
  have mi: "maxIndex rmi \<noteq> 0 \<or> depth rmi = 1"
    using assms(4) f by auto
  have "\<exists>q node res. q < nat (width rmi) ^ (nat (depth rmi) - 1)
      \<and> nodes rmi ! (nat (depth rmi) - 1) ! q = Some node \<and> predict node key = Inr res
      \<and> GetIndex_loop rmi key (NewFloat (width rmi)) (nodes rmi ! (1 - 1) ! 0) 1 0
          = (0 + Suc (nat (depth rmi) - 1),
             Inr (if maxIndex rmi < Int64 res then maxIndex rmi
                  else if Int64 res < 0 then 0 else Int64 res))"
    by (rule GetIndex_loop_total [where k = "nat (depth rmi) - 1"])
      (use assms(1,2) n f mi built_nodes_fin [OF assms(1,3)] in simp_all)
  then obtain res where
    "GetIndex_run rmi key
       = (nat dp, Inr (if maxIndex rmi < Int64 res then maxIndex rmi
                       else if Int64 res < 0 then 0 else Int64 res))"
    using assms(2) f by (auto simp: GetIndex_run_def)
  then show ?thesis
    by auto
qed

text \<open>
  The tree of a single key, on two layers or more: every node is fitted from at most one
  sample, so the build succeeds; \<open>maxIndex\<close> is 0, the root predicts 0, and every query
  panics in the division on the first layer, after one model evaluation.
\<close>

lemma children_loop_shorter:
  "(vs, ranks, off) \<in> set (children_loop k values indices offset rs left right) \<Longrightarrow>
     length ranks \<le> length indices"
proof (induction k arbitrary: offset left right)
  case 0
  then show ?case by simp
next
  case (Suc k)
  obtain l1 r1 where lr: "clampLR (int (length indices)) left right = (l1, r1)"
    by (cases "clampLR (int (length indices)) left right")
  let ?sub = "if l1 \<noteq> r1 then cut indices l1 r1 else []"
  let ?off = "if ?sub = [] then offset else hd ?sub"
  from Suc.prems have "(vs, ranks, off) = (cut values l1 r1, ?sub, ?off)
      \<or> (vs, ranks, off) \<in> set (children_loop k values indices ?off rs r1
               (nextRight (int (length indices)) rs r1))"
    by (simp add: lr Let_def case_list_hd)
  then show ?case
  proof
    assume "(vs, ranks, off) = (cut values l1 r1, ?sub, ?off)"
    then show ?thesis
      by (auto simp: length_cut)
  next
    assume "(vs, ranks, off) \<in> set (children_loop k values indices ?off rs r1
               (nextRight (int (length indices)) rs r1))"
    then show ?thesis
      by (rule Suc.IH)
  qed
qed

lemma slotArgs_shorter:
  "p < nat wd ^ l \<Longrightarrow> slotArgs wd values l p = (vs, ranks, off) \<Longrightarrow>
     length ranks \<le> length values"
proof (induction l arbitrary: p vs ranks off)
  case 0
  then show ?case by auto
next
  case (Suc l)
  have W: "0 < nat wd"
    using Suc.prems(1) by (cases "nat wd = 0") auto
  have pd: "p div nat wd < nat wd ^ l"
    using Suc.prems(1) W by (simp add: less_mult_imp_div_less mult.commute)
  obtain pv pr po where par: "slotArgs wd values l (p div nat wd) = (pv, pr, po)"
    by (cases "slotArgs wd values l (p div nat wd)")
  have len: "length pr \<le> length values"
    using Suc.IH [OF pd par] .
  have "p mod nat wd < length (childArgs wd (pv, pr, po))"
    using W by simp
  then have "(vs, ranks, off) \<in> set (childArgs wd (pv, pr, po))"
    using Suc.prems(2) par by (metis nth_mem slotArgs.simps(2))
  then have "length ranks \<le> length pr"
    using children_loop_shorter by (auto simp: childArgs_def Let_def)
  then show ?case
    using len by simp
qed

lemma Quo_zero_zero: "Quo 53 (Finite 53 False 0) (Finite 53 False 0) = Inl ErrNaN"
  by (simp add: Quo_def is_zero_def)

lemma single_key_deep_panics:
  assumes "1 \<le> wd" and "2 \<le> dp"
  shows "\<exists>rmi. NewRMI [k] wd dp = Inr rmi \<and> maxIndex rmi = 0
    \<and> (\<forall>key. GetIndex_run rmi key = (1, Inl ErrNaN))"
proof -
  have dp: "1 \<le> dp"
    using assms(2) by simp
  have fit: "\<exists>node. fitArgs (slotArgs wd [k] l p) = Inr node" if "p < nat wd ^ l" for l p
  proof -
    obtain vs ranks off where s: "slotArgs wd [k] l p = (vs, ranks, off)"
      by (cases "slotArgs wd [k] l p")
    have "length ranks < 2"
      using slotArgs_shorter [OF that s] by simp
    then show ?thesis
      using s by (simp add: fitArgs_def fitNode_degenerate)
  qed
  then obtain rmi where r: "NewRMI [k] wd dp = Inr rmi"
    using NewRMI_succeeds [of "[k]" wd dp] assms(1) dp by auto
  have f: "width rmi = wd" "depth rmi = dp" "root rmi = nodes rmi ! 0 ! 0" "maxIndex rmi = 0"
    using r by (auto elim!: NewRMI_Inr)
  note n = NewRMI_nodes [OF assms(1) r]
  have rt: "root rmi = Some zeroNode"
    using n(3) [of 0 0] assms(2) f(3) by (simp add: fitArgs_def fitNode_def zeroNode_def)
  have nl: "int (Suc 0) \<noteq> depth rmi" "Suc 0 < length (nodes rmi)"
      "0 < length (nodes rmi ! Suc 0)"
    using assms f n(1) n(2) [of 1] by simp_all
  have "GetIndex_run rmi key = (1, Inl ErrNaN)" for key
    unfolding GetIndex_run_def rt One_nat_def
    by (subst GetIndex_loop_inner [OF nl]) (simp_all add: predict_zeroNode f(4) Quo_zero_zero)
  then show ?thesis
    using r f(4) by blast
qed

section \<open>The code against the specification on numbers\<close>

text \<open>
  The value of the result of an operation on finite floats is the exact result rounded
  to the nearest number of the precision of the result; so each loop of the regression
  computes the fold that the specification's definition is, and \<open>predict\<close> computes
  \<open>m * key + b\<close>.
\<close>

lemma nearest_zero [simp]: "nearest p 0 = 0"
  by (simp add: nearest_def)

lemma sval_rounded: "sval (rounded p z v) = nearest p v"
  by (simp add: rounded_def sval_def nearest_def)

lemma is_zero_sval: "fin x \<Longrightarrow> is_zero x \<longleftrightarrow> sval x = 0"
  by (cases x) (auto simp: is_zero_def sval_def)

lemma sval_product:
  assumes "0 \<le> a" "0 \<le> c"
  shows "sval (Finite p (s \<noteq> t) (round_to p (a * c)))
    = nearest p ((if s then - a else a) * (if t then - c else c))"
proof (cases "a * c = 0")
  case True
  then show ?thesis
    by (auto simp: sval_def)
next
  case False
  then have "0 < a * c"
    using assms by (simp add: less_le)
  then show ?thesis
    by (auto simp: sval_def nearest_def)
qed

lemma sval_quotient:
  assumes "0 \<le> a" "0 < c"
  shows "sval (Finite p (s \<noteq> t) (round_to p (a / c)))
    = nearest p ((if s then - a else a) / (if t then - c else c))"
proof (cases "a = 0")
  case True
  then show ?thesis
    by (auto simp: sval_def)
next
  case False
  then have "0 < a / c"
    using assms by (simp add: less_le)
  then show ?thesis
    using assms(2) by (auto simp: sval_def nearest_def)
qed

lemma Add_val:
  assumes "fin x" "fin y"
  shows "\<exists>z. Add zp x y = Inr z \<and> fin z \<and> prec z = zprec zp x y
           \<and> sval z = nearest (zprec zp x y) (sval x + sval y)"
  using assms by (simp add: Add_fin fin_rounded zprec_fin sval_rounded)

lemma Sub_val:
  assumes "fin x" "fin y"
  shows "\<exists>z. Sub zp x y = Inr z \<and> fin z \<and> prec z = zprec zp x y
           \<and> sval z = nearest (zprec zp x y) (sval x - sval y)"
  using assms by (simp add: Sub_fin fin_rounded zprec_fin sval_rounded)

lemma Mul_val:
  assumes "fin x" "fin y"
  shows "\<exists>z. Mul zp x y = Inr z \<and> fin z \<and> prec z = zprec zp x y
           \<and> sval z = nearest (zprec zp x y) (sval x * sval y)"
proof -
  have "sval (Finite (zprec zp x y) (neg x \<noteq> neg y) (round_to (zprec zp x y) (mag x * mag y)))
      = nearest (zprec zp x y) (sval x * sval y)"
    using sval_product [OF fin_mag [OF assms(1)] fin_mag [OF assms(2)]]
    by (simp add: sval_def)
  then show ?thesis
    using assms by (simp add: Mul_fin zprec_fin round_to_nonneg fin_mag)
qed

lemma Quo_val:
  assumes "fin x" "fin y" "\<not> is_zero y"
  shows "\<exists>z. Quo zp x y = Inr z \<and> fin z \<and> prec z = zprec zp x y
           \<and> sval z = nearest (zprec zp x y) (sval x / sval y)"
proof -
  have "0 < mag y"
    using assms(2,3) by (cases y) (auto simp: is_zero_def)
  then have "sval (Finite (zprec zp x y) (neg x \<noteq> neg y) (round_to (zprec zp x y) (mag x / mag y)))
      = nearest (zprec zp x y) (sval x / sval y)"
    using sval_quotient [OF fin_mag [OF assms(1)]] by (simp add: sval_def)
  then show ?thesis
    using assms by (simp add: Quo_fin zprec_fin round_to_nonneg fin_mag)
qed

lemma prec_SetInt [simp]: "prec (SetInt 0 k) = keyBits k"
  by (simp add: SetInt_def keyBits_def Let_def)

lemma keyBits_pos [simp]: "0 < keyBits k" "keyBits k \<noteq> 0"
  by (simp_all add: keyBits_def)

lemma sval_NewFloat: "sval (NewFloat n) = nearest 53 (of_int n)"
  by (auto simp: NewFloat_def sval_def nearest_def)

lemma sval_plus_zero [simp]: "sval (Finite p False 0) = 0"
  by (simp add: sval_def)

lemma mean_loop_val:
  "fin acc \<Longrightarrow> prec acc = 53 \<Longrightarrow>
     \<exists>s. mean_loop acc vs = Inr s \<and> fin s \<and> prec s = 53
       \<and> sval s = foldl (\<lambda>s x. nearest 53 (s + of_int x)) (sval acc) vs"
proof (induction vs arbitrary: acc)
  case Nil
  then show ?case by simp
next
  case (Cons v vs)
  obtain a where a: "Add (prec acc) acc (SetInt 0 v) = Inr a" "fin a" "prec a = 53"
      "sval a = nearest 53 (sval acc + of_int v)"
    using Add_val [OF Cons.prems(1) fin_SetInt, of "prec acc" v] Cons.prems(2)
    by (auto simp: zprec_def sval_SetInt)
  from Cons.IH [OF a(2,3)] show ?case
    by (simp add: a(1,4))
qed

lemma mean_val:
  assumes "vs \<noteq> []"
  shows "\<exists>mu. mean vs = Inr mu \<and> fin mu \<and> prec mu = 53 \<and> sval mu = mean_spec vs"
proof -
  obtain s where s: "mean_loop (NewFloat 0) vs = Inr s" "fin s" "prec s = 53"
      "sval s = foldl (\<lambda>s x. nearest 53 (s + of_int x)) 0 vs"
    using mean_loop_val [of "NewFloat 0" vs] by auto
  obtain mu where "Quo (prec s) s (NewFloat (int (length vs))) = Inr mu" "fin mu"
      "prec mu = 53" "sval mu = nearest 53 (sval s / sval (NewFloat (int (length vs))))"
    using Quo_val [OF s(2) fin_NewFloat NewFloat_length_nonzero [OF assms], of "prec s"] s(3)
    by (auto simp: zprec_def)
  then show ?thesis
    using s by (simp add: mean_def mean_spec_def sval_NewFloat)
qed

lemma deviation_val:
  assumes "fin mu"
  shows "\<exists>d. Sub (keyBits v) (SetInt 0 v) mu = Inr d \<and> fin d \<and> prec d = keyBits v
           \<and> sval d = deviation (sval mu) v"
  using Sub_val [OF fin_SetInt assms, of "keyBits v" v]
  by (auto simp: zprec_def sval_SetInt deviation_def)

lemma variance_loop_val:
  "fin acc \<Longrightarrow> prec acc = 53 \<Longrightarrow> fin mu \<Longrightarrow>
     \<exists>s. variance_loop acc vs mu = Inr s \<and> fin s \<and> prec s = 53
       \<and> sval s = foldl (\<lambda>s x. nearest 53
             (s + nearest (keyBits x) (deviation (sval mu) x * deviation (sval mu) x)))
           (sval acc) vs"
proof (induction vs arbitrary: acc)
  case Nil
  then show ?case by simp
next
  case (Cons v vs)
  obtain d where d: "Sub (keyBits v) (SetInt 0 v) mu = Inr d" "fin d"
      "prec d = keyBits v" "sval d = deviation (sval mu) v"
    using deviation_val [OF Cons.prems(3)] by blast
  obtain sq where sq: "Mul (keyBits v) d d = Inr sq" "fin sq"
      "sval sq = nearest (keyBits v) (sval d * sval d)"
    using Mul_val [OF d(2) d(2), of "keyBits v"] d(3) by (auto simp: zprec_def)
  obtain a where a: "Add (prec acc) acc sq = Inr a" "fin a" "prec a = 53"
      "sval a = nearest 53 (sval acc + sval sq)"
    using Add_val [OF Cons.prems(1) sq(2), of "prec acc"] Cons.prems(2)
    by (auto simp: zprec_def)
  from Cons.IH [OF a(2,3) Cons.prems(3)] show ?case
    by (simp add: d(1,3,4) sq(1,3) a(1,4) Let_def)
qed

lemma variance_val:
  assumes "fin mu"
  shows "\<exists>var. variance vs mu = Inr var \<and> fin var \<and> prec var = 53
           \<and> sval var = variance_spec vs (sval mu)"
  using variance_loop_val [OF fin_NewFloat prec_NewFloat assms, of 0 vs]
  by (simp add: variance_def variance_spec_def)

lemma covariance_loop_val:
  "fin acc \<Longrightarrow> prec acc = 53 \<Longrightarrow> fin mx \<Longrightarrow> fin my \<Longrightarrow> length xs \<le> length ys \<Longrightarrow>
     \<exists>s. covariance_loop acc xs ys mx my = Inr s \<and> fin s \<and> prec s = 53
       \<and> sval s = foldl (\<lambda>s (x, y). nearest 53
             (s + nearest (max (keyBits x) (keyBits y))
                    (deviation (sval mx) x * deviation (sval my) y)))
           (sval acc) (zip xs ys)"
proof (induction xs arbitrary: acc ys)
  case Nil
  then show ?case by simp
next
  case (Cons x xs)
  then obtain y ys' where ys: "ys = y # ys'" and len: "length xs \<le> length ys'"
    by (cases ys) auto
  obtain dx where dx: "Sub (keyBits x) (SetInt 0 x) mx = Inr dx" "fin dx"
      "prec dx = keyBits x" "sval dx = deviation (sval mx) x"
    using deviation_val [OF Cons.prems(3)] by blast
  obtain dy where dy: "Sub (keyBits y) (SetInt 0 y) my = Inr dy" "fin dy"
      "prec dy = keyBits y" "sval dy = deviation (sval my) y"
    using deviation_val [OF Cons.prems(4)] by blast
  obtain pr where pr: "Mul 0 dx dy = Inr pr" "fin pr"
      "sval pr = nearest (max (keyBits x) (keyBits y)) (sval dx * sval dy)"
    using Mul_val [OF dx(2) dy(2), of 0] dx(3) dy(3) by (auto simp: zprec_def)
  obtain a where a: "Add (prec acc) acc pr = Inr a" "fin a" "prec a = 53"
      "sval a = nearest 53 (sval acc + sval pr)"
    using Add_val [OF Cons.prems(1) pr(2), of "prec acc"] Cons.prems(2)
    by (auto simp: zprec_def)
  from Cons.IH [OF a(2,3) Cons.prems(3,4) len] show ?case
    by (simp add: ys dx(1,4) dy(1,4) pr(1,3) a(1,4) Let_def)
qed

lemma covariance_val:
  assumes "fin mx" "fin my" "length xs \<le> length ys"
  shows "\<exists>cov. covariance xs ys mx my = Inr cov \<and> fin cov \<and> prec cov = 53
           \<and> sval cov = covariance_spec xs ys (sval mx) (sval my)"
  using covariance_loop_val [OF fin_NewFloat prec_NewFloat assms, of 0]
  by (simp add: covariance_def covariance_spec_def)

lemma Quo_by_zero:
  assumes "fin x" "\<not> is_zero x" "fin y" "is_zero y"
  shows "\<exists>z. Quo zp x y = Inr z \<and> is_inf z"
  using assms by (cases x; cases y) (auto simp: Quo_def Let_def is_zero_def is_inf_def)

lemma spec_fit_two_keys:
  "variance_spec [0, 8] (mean_spec [0, 8]) = 32"
  "slope_spec [0, 8] [0, 1] = 1 / 8"
  "intercept_spec [0, 8] [0, 1] = 0"
  "zeroCrossing_spec [0, 8] [0, 1] = 0"
proof -
  have mx: "mean_spec [0, 8] = 4"
    by code_simp
  have my: "mean_spec [0, 1] = 1 / 2"
    by code_simp
  have c: "covariance_spec [0, 8] [0, 1] 4 (1 / 2) = 4"
    by code_simp
  have v: "variance_spec [0, 8] 4 = 32"
    by code_simp
  have n1: "nearest 53 (4 / 32) = 1 / 8"
    by code_simp
  have n2: "nearest 53 (4 * (1 / 8)) = 1 / 2"
    by code_simp
  show "variance_spec [0, 8] (mean_spec [0, 8]) = 32"
    by (simp only: mx v)
  show s: "slope_spec [0, 8] [0, 1] = 1 / 8"
    by (simp only: slope_spec_def mx my c v n1)
  show i: "intercept_spec [0, 8] [0, 1] = 0"
    by (simp only: intercept_spec_def s mx my n2) simp
  show "zeroCrossing_spec [0, 8] [0, 1] = 0"
    by (simp only: zeroCrossing_spec_def s i) simp
qed

lemma spec_fit_flat_ranks:
  "variance_spec [0, 1] (mean_spec [0, 1]) = 1 / 2"
  "slope_spec [0, 1] [0, 0] = 0"
  "intercept_spec [0, 1] [0, 0] = 0"
proof -
  have mx: "mean_spec [0, 1] = 1 / 2"
    by code_simp
  have my: "mean_spec [0, 0] = 0"
    by code_simp
  have c: "covariance_spec [0, 1] [0, 0] (1 / 2) 0 = 0"
    by code_simp
  have v: "variance_spec [0, 1] (1 / 2) = 1 / 2"
    by code_simp
  show "variance_spec [0, 1] (mean_spec [0, 1]) = 1 / 2"
    by (simp only: mx v)
  show s: "slope_spec [0, 1] [0, 0] = 0"
    by (simp only: slope_spec_def mx my c v) simp
  show "intercept_spec [0, 1] [0, 0] = 0"
    by (simp only: intercept_spec_def s mx my) simp
qed

text \<open>
  Claim C7, amended. For keys and ranks of equal length, at least two, with a variance of
  the keys that is not zero, and with a slope and an intercept that are not both zero,
  the fit returns, and it returns the numbers of the specification: the slope is the
  covariance divided by the variance, the intercept is the mean of the ranks minus the
  mean of the keys times the slope, and the zero crossing is minus the intercept divided
  by the slope, which is an infinity when the slope is zero.
\<close>

theorem coefficients_fit:
  assumes "length keys = length ranks" and "2 \<le> length keys"
    and "variance_spec keys (mean_spec keys) \<noteq> 0"
    and "\<not> (slope_spec keys ranks = 0 \<and> intercept_spec keys ranks = 0)"
  shows "\<exists>b0 b1 w0. coefficients keys ranks = Inr (b0, b1, w0)
    \<and> \<not> is_inf b1 \<and> sval b1 = slope_spec keys ranks
    \<and> \<not> is_inf b0 \<and> sval b0 = intercept_spec keys ranks
    \<and> (if slope_spec keys ranks = 0 then is_inf w0
        else \<not> is_inf w0 \<and> sval w0 = zeroCrossing_spec keys ranks)"
proof -
  have ne: "keys \<noteq> []" "ranks \<noteq> []"
    using assms(1,2) by auto
  obtain meanX where mx: "mean keys = Inr meanX" "fin meanX" "prec meanX = 53"
      "sval meanX = mean_spec keys"
    using mean_val [OF ne(1)] by blast
  obtain meanY where my: "mean ranks = Inr meanY" "fin meanY" "prec meanY = 53"
      "sval meanY = mean_spec ranks"
    using mean_val [OF ne(2)] by blast
  obtain cov where cov: "covariance keys ranks meanX meanY = Inr cov" "fin cov" "prec cov = 53"
      "sval cov = covariance_spec keys ranks (mean_spec keys) (mean_spec ranks)"
    using covariance_val [OF mx(2) my(2), of keys ranks] assms(1) mx(4) my(4) by auto
  obtain var where var: "variance keys meanX = Inr var" "fin var"
      "sval var = variance_spec keys (mean_spec keys)"
    using variance_val [OF mx(2), of keys] mx(4) by auto
  have nz: "\<not> is_zero var"
    using assms(3) var(2,3) by (simp add: is_zero_sval)
  obtain b1 where b1: "Quo (prec cov) cov var = Inr b1" "fin b1" "prec b1 = 53"
      "sval b1 = slope_spec keys ranks"
    using Quo_val [OF cov(2) var(2) nz, of "prec cov"] cov(3,4) var(3)
    by (auto simp: zprec_def slope_spec_def)
  obtain mxb where mxb: "Mul (prec meanX) meanX b1 = Inr mxb" "fin mxb" "prec mxb = 53"
      "sval mxb = nearest 53 (mean_spec keys * slope_spec keys ranks)"
    using Mul_val [OF mx(2) b1(2), of "prec meanX"] mx(3,4) b1(4) by (auto simp: zprec_def)
  obtain b0 where b0: "Sub 0 meanY mxb = Inr b0" "fin b0" "prec b0 = 53"
      "sval b0 = intercept_spec keys ranks"
    using Sub_val [OF my(2) mxb(2), of 0] my(3,4) mxb(3,4)
    by (auto simp: zprec_def intercept_spec_def)
  let ?n = "Neg 0 b0"
  have n: "fin ?n" "prec ?n = 53" "sval ?n = - intercept_spec keys ranks"
      "is_zero ?n \<longleftrightarrow> intercept_spec keys ranks = 0"
    using fin_Neg [OF b0(2)] b0(2,3,4) by (simp_all add: is_zero_sval)
  have "\<exists>w0. Quo (prec ?n) ?n b1 = Inr w0
      \<and> (if slope_spec keys ranks = 0 then is_inf w0
          else \<not> is_inf w0 \<and> sval w0 = zeroCrossing_spec keys ranks)"
  proof (cases "slope_spec keys ranks = 0")
    case True
    then have "is_zero b1" "\<not> is_zero ?n"
      using b1(2,4) n(4) assms(4) by (simp_all add: is_zero_sval)
    then show ?thesis
      using Quo_by_zero [OF n(1) _ b1(2), of "prec ?n"] True by auto
  next
    case False
    then have "\<not> is_zero b1"
      using b1(2,4) by (simp add: is_zero_sval)
    from Quo_val [OF n(1) b1(2) this, of "prec ?n"] show ?thesis
      using False n(2,3) b1(4) by (auto simp: zprec_def zeroCrossing_spec_def fin_not_inf)
  qed
  then obtain w0 where w0: "Quo (prec ?n) ?n b1 = Inr w0"
      "if slope_spec keys ranks = 0 then is_inf w0
       else \<not> is_inf w0 \<and> sval w0 = zeroCrossing_spec keys ranks"
    by blast
  have "coefficients keys ranks = Inr (b0, b1, w0)"
    by (simp add: coefficients_def mx(1) my(1) cov(1) var(1) b1(1) mxb(1) b0(1) w0(1) Let_def)
  then show ?thesis
    using b1(2,4) b0(2,4) w0(2) by (auto simp: fin_not_inf)
qed

theorem coefficients_fit_witness:
  "\<exists>b0 b1 w0. length [0, 8 :: int] = length [0, 1 :: int] \<and> 2 \<le> length [0, 8 :: int]
     \<and> variance_spec [0, 8] (mean_spec [0, 8]) = 32
     \<and> slope_spec [0, 8] [0, 1] = 1 / 8
     \<and> intercept_spec [0, 8] [0, 1] = 0
     \<and> zeroCrossing_spec [0, 8] [0, 1] = 0
     \<and> coefficients [0, 8] [0, 1] = Inr (b0, b1, w0)
     \<and> \<not> is_inf b1 \<and> sval b1 = 1 / 8 \<and> \<not> is_inf b0 \<and> sval b0 = 0
     \<and> \<not> is_inf w0 \<and> sval w0 = 0"
proof -
  note s = spec_fit_two_keys
  have l: "length [0, 8 :: int] = length [0, 1 :: int]" and t: "2 \<le> length [0, 8 :: int]"
    by simp_all
  have v0: "variance_spec [0, 8] (mean_spec [0, 8]) \<noteq> 0"
    using s(1) by simp
  have s0: "\<not> (slope_spec [0, 8] [0, 1] = 0 \<and> intercept_spec [0, 8] [0, 1] = 0)"
    using s(2) by simp
  show ?thesis
    using coefficients_fit [OF l t v0 s0] l t s by auto
qed

text \<open>
  Claim C7 as stated fails at the keys 0, 1 with the ranks 0, 0: the lengths are equal
  and 2, the variance of the keys is \<open>1/2\<close>, the covariance is zero, so slope and
  intercept are both zero, and the last division, of zero by zero, panics: the fit
  returns nothing.
\<close>

theorem coefficients_zero_fit_panics:
  "length [0, 1 :: int] = length [0, 0 :: int] \<and> 2 \<le> length [0, 1 :: int]
   \<and> variance_spec [0, 1] (mean_spec [0, 1]) = 1 / 2
   \<and> slope_spec [0, 1] [0, 0] = 0 \<and> intercept_spec [0, 1] [0, 0] = 0
   \<and> coefficients [0, 1] [0, 0] = Inl ErrNaN"
proof -
  have "coefficients [0, 1] [0, 0] = Inl ErrNaN"
    by code_simp
  then show ?thesis
    using spec_fit_flat_ranks by simp
qed

text \<open>
  The conversion \<open>Int64\<close> truncates towards zero and saturates, where the specification
  takes the floor. Clamped into a range from 0 that fits into an \<open>int64\<close>, the two agree.
  On a tree whose sizes are below \<open>2^53\<close>, \<open>maxIndex\<close> and the powers of \<open>width\<close> are
  exact as floats, and the loop of \<open>GetIndex\<close> returns what the traversal of the
  specification returns.
\<close>

lemma nearest_of_int:
  assumes "0 \<le> n" "n < 2 ^ 53"
  shows "nearest 53 (of_int n) = of_int n"
proof -
  have "bitlen n \<le> 53"
    using assms(2) by (simp add: bitlen_le_iff_power)
  then have "nat (bitlen n) \<le> 53"
    by simp
  from round_to_of_int [OF assms(1) this] show ?thesis
    using assms(1) by (simp add: nearest_def)
qed

lemma sval_NewFloat_exact:
  assumes "0 \<le> n" "n < 2 ^ 53"
  shows "sval (NewFloat n) = of_int n"
  using nearest_of_int [OF assms] by (simp add: sval_NewFloat)

lemma clampTo_nonpos: "x \<le> 0 \<Longrightarrow> 0 \<le> hi \<Longrightarrow> clampTo 0 hi x = 0"
  by (auto simp: clampTo_def)

lemma clampTo_Int64:
  assumes "fin x" "0 \<le> hi" "hi \<le> MaxInt64"
  shows "clampTo 0 hi (Int64 x) = clampTo 0 hi \<lfloor>sval x\<rfloor>"
proof (cases x)
  case (Finite p s a)
  then have a: "0 \<le> a"
    using assms(1) by simp
  then have f: "0 \<le> \<lfloor>a\<rfloor>"
    by simp
  show ?thesis
  proof (cases s)
    case True
    have "\<lfloor>sval x\<rfloor> \<le> 0"
      using a Finite True by (simp add: sval_def floor_le_zero)
    moreover have "Int64 x \<le> 0"
      using f Finite True by (simp add: Int64_def MinInt64_def)
    ultimately show ?thesis
      using assms(2) by (simp add: clampTo_nonpos)
  next
    case False
    then show ?thesis
      using Finite f assms(2,3) by (auto simp: Int64_def sval_def clampTo_def)
  qed
next
  case (Infinite p s)
  then show ?thesis
    using assms(1) by simp
qed

lemma predict_val:
  assumes "fin (m node)" "fin (b node)"
  shows "\<exists>res. predict node key = Inr res \<and> fin res \<and> prec res = 53
           \<and> sval res = predict_spec node key"
proof -
  obtain r where r: "Mul 53 (m node) (SetInt 0 key) = Inr r" "fin r"
      "sval r = nearest 53 (sval (m node) * of_int key)"
    using Mul_val [OF assms(1) fin_SetInt, of 53 key] by (auto simp: zprec_def sval_SetInt)
  obtain res where "Add 53 r (b node) = Inr res" "fin res" "prec res = 53"
      "sval res = nearest 53 (sval r + sval (b node))"
    using Add_val [OF r(2) assms(2), of 53] by (auto simp: zprec_def)
  then show ?thesis
    using r(1,3) by (simp add: predict_def predict_spec_def)
qed


lemma GetIndex_loop_refines:
  assumes shape: "length (nodes rmi) = nat (depth rmi)"
      "\<And>l. l < nat (depth rmi) \<Longrightarrow> length (nodes rmi ! l) = nat (width rmi) ^ l"
    and w: "1 \<le> width rmi"
    and nd: "\<And>l p. l < nat (depth rmi) \<Longrightarrow> p < nat (width rmi) ^ l \<Longrightarrow>
               \<exists>node. nodes rmi ! l ! p = Some node \<and> fin (m node) \<and> fin (b node)"
    and mi: "0 < maxIndex rmi \<or> (depth rmi = 1 \<and> 0 \<le> maxIndex rmi)"
    and mi53: "maxIndex rmi < 2 ^ 53"
    and sz: "width rmi ^ (nat (depth rmi) - 1) < 2 ^ 53"
  shows "k = nat (depth rmi) - nextLayer \<Longrightarrow> 1 \<le> nextLayer \<Longrightarrow> nextLayer \<le> nat (depth rmi)
    \<Longrightarrow> fin scale \<Longrightarrow> prec scale = 53
    \<Longrightarrow> (nextLayer < nat (depth rmi) \<longrightarrow> sval scale = of_int (width rmi ^ nextLayer))
    \<Longrightarrow> position < nat (width rmi) ^ (nextLayer - 1) \<Longrightarrow>
    \<exists>i. traverse_spec rmi key k (nextLayer - 1) position = Some i
      \<and> snd (GetIndex_loop rmi key scale (nodes rmi ! (nextLayer - 1) ! position) nextLayer evals)
          = Inr i"
proof (induction k arbitrary: nextLayer scale evals position)
  case 0
  then have leaf: "int nextLayer = depth rmi"
    by simp
  have "nextLayer - 1 < nat (depth rmi)"
    using "0.prems"(2,3) by simp
  then obtain node where node: "nodes rmi ! (nextLayer - 1) ! position = Some node"
      "fin (m node)" "fin (b node)"
    using nd [OF _ "0.prems"(7)] by blast
  obtain res where res: "predict node key = Inr res" "fin res"
      "sval res = predict_spec node key"
    using predict_val [OF node(2,3)] by blast
  have m0: "0 \<le> maxIndex rmi" "maxIndex rmi \<le> MaxInt64"
    using mi mi53 by (auto simp: MaxInt64_def)
  have "snd (GetIndex_loop rmi key scale (Some node) nextLayer evals)
      = Inr (clampTo 0 (maxIndex rmi) (Int64 res))"
    by (simp add: GetIndex_loop_leaf [OF leaf m0(1)] res(1))
  also have "clampTo 0 (maxIndex rmi) (Int64 res)
      = clampTo 0 (maxIndex rmi) \<lfloor>predict_spec node key\<rfloor>"
    using clampTo_Int64 [OF res(2) m0] res(3) by simp
  finally show ?case
    using node(1) by simp
next
  case (Suc k)
  then have nl: "int nextLayer \<noteq> depth rmi" "nextLayer < nat (depth rmi)"
    by simp_all
  have nl2: "nextLayer < length (nodes rmi)"
    using nl(2) shape(1) by simp
  have len: "length (nodes rmi ! nextLayer) = nat (width rmi) ^ nextLayer"
    using shape(2) [OF nl(2)] .
  have ilen: "int (length (nodes rmi ! nextLayer)) = width rmi ^ nextLayer"
    unfolding len using w by simp
  have pos: "0 < length (nodes rmi ! nextLayer)"
    using len w by simp
  have mi0: "0 < maxIndex rmi"
    using mi nl Suc.prems(2) by auto
  have sc: "sval scale = of_int (width rmi ^ nextLayer)"
    using Suc.prems(6) nl(2) by simp
  have wle: "width rmi ^ nextLayer \<le> width rmi ^ (nat (depth rmi) - 1)"
    using w nl(2) by (intro power_increasing) simp_all
  have "nextLayer - 1 < nat (depth rmi)"
    using nl(2) by simp
  then obtain node where node: "nodes rmi ! (nextLayer - 1) ! position = Some node"
      "fin (m node)" "fin (b node)"
    using nd [OF _ Suc.prems(7)] by blast
  obtain res where res: "predict node key = Inr res" "fin res"
      "sval res = predict_spec node key"
    using predict_val [OF node(2,3)] by blast
  have mf: "sval (NewFloat (maxIndex rmi)) = of_int (maxIndex rmi)"
    using mi0 mi53 by (intro sval_NewFloat_exact) simp_all
  obtain fr where fr: "Quo 53 res (NewFloat (maxIndex rmi)) = Inr fr" "fin fr"
      "sval fr = nearest 53 (predict_spec node key / of_int (maxIndex rmi))"
    using Quo_val [OF res(2) fin_NewFloat NewFloat_nonzero, of "maxIndex rmi" 53] mi0 res(3) mf
    by (auto simp: zprec_def)
  obtain sl where sl: "Mul 53 fr scale = Inr sl" "fin sl"
      "sval sl = nearest 53 (sval fr * of_int (width rmi ^ nextLayer))"
    using Mul_val [OF fr(2) Suc.prems(4), of 53] sc by (auto simp: zprec_def)
  have wf: "sval (NewFloat (width rmi)) = of_int (width rmi)"
  proof -
    have "width rmi ^ 1 \<le> width rmi ^ nextLayer"
      using w Suc.prems(2) by (intro power_increasing) simp_all
    then have "width rmi < 2 ^ 53"
      using wle sz by simp
    then show ?thesis
      using w by (intro sval_NewFloat_exact) simp_all
  qed
  obtain scale1 where s1: "Mul 53 scale (NewFloat (width rmi)) = Inr scale1" "fin scale1"
      "prec scale1 = 53" "sval scale1 = nearest 53 (sval scale * sval (NewFloat (width rmi)))"
    using Mul_val [OF Suc.prems(4) fin_NewFloat, of 53 "width rmi"]
    by (auto simp: zprec_def)
  have s1p: "sval scale1 = nearest 53 (of_int (width rmi ^ Suc nextLayer))"
    unfolding s1(4) sc wf by (simp add: mult.commute)
  have s1v: "Suc nextLayer < nat (depth rmi) \<longrightarrow> sval scale1 = of_int (width rmi ^ Suc nextLayer)"
  proof
    assume "Suc nextLayer < nat (depth rmi)"
    then have "width rmi ^ Suc nextLayer \<le> width rmi ^ (nat (depth rmi) - 1)"
      using w by (intro power_increasing) simp_all
    then have "width rmi ^ Suc nextLayer < 2 ^ 53"
      using sz by simp
    moreover have "0 \<le> width rmi ^ Suc nextLayer"
      using w by simp
    ultimately show "sval scale1 = of_int (width rmi ^ Suc nextLayer)"
      unfolding s1p by (intro nearest_of_int)
  qed
  let ?hi = "width rmi ^ nextLayer - 1"
  have hi: "0 \<le> ?hi" "?hi \<le> MaxInt64"
    using w wle sz by (auto simp: MaxInt64_def)
  let ?child = "\<lfloor>nearest 53 (nearest 53 (predict_spec node key / of_int (maxIndex rmi))
                   * of_int (width rmi ^ nextLayer))\<rfloor>"
  have cl: "clampTo 0 (int (length (nodes rmi ! nextLayer)) - 1) (Int64 sl) = clampTo 0 ?hi ?child"
    using clampTo_Int64 [OF sl(2) hi] sl(3) fr(3) ilen by simp
  let ?q = "nat (clampTo 0 ?hi ?child)"
  have "clampTo 0 ?hi ?child \<in> {0..?hi}"
    using hi(1) by (rule clampTo_range)
  then have "?q < nat (width rmi ^ nextLayer)"
    using w by auto
  then have q: "?q < nat (width rmi) ^ (Suc nextLayer - 1)"
    using w by (simp add: nat_power_eq)
  have k: "k = nat (depth rmi) - Suc nextLayer"
    using Suc.prems(1) by simp
  obtain i where i: "traverse_spec rmi key k (Suc nextLayer - 1) ?q = Some i"
      "snd (GetIndex_loop rmi key scale1 (nodes rmi ! (Suc nextLayer - 1) ! ?q) (Suc nextLayer)
              (Suc evals)) = Inr i"
    using Suc.IH [OF k _ _ s1(2,3) s1v q, of "Suc evals"] nl(2) by auto
  have code: "snd (GetIndex_loop rmi key scale (Some node) nextLayer evals) = Inr i"
    unfolding GetIndex_loop_inner [OF nl(1) nl2 pos Suc.prems(5)]
    using i(2) by (simp add: res(1) fr(1) sl(1) s1(1) cl)
  obtain j where j: "nextLayer = Suc j"
    using Suc.prems(2) by (cases nextLayer) auto
  have nj: "nodes rmi ! j ! position = Some node"
    using node(1) by (simp add: j)
  have "traverse_spec rmi key (Suc k) j position = Some i"
    using i(1) mi0 by (simp add: nj j Let_def)
  then show ?case
    using code nj by (simp add: j)
qed

section \<open>Queries on built trees\<close>

text \<open>
  Claim C10. For the empty key array and every width and depth of at least 1 (the domain
  of the build), \<open>NewRMI\<close> succeeds, \<open>maxIndex\<close> is -1, and \<open>GetIndex\<close> returns -1 for
  every key.
\<close>

theorem empty_tree_query:
  assumes "1 \<le> wd" and "1 \<le> dp"
  shows "\<exists>rmi. NewRMI [] wd dp = Inr rmi \<and> maxIndex rmi = - 1
           \<and> (\<forall>key. GetIndex rmi key = Inr (- 1))"
proof -
  obtain rmi where r: "NewRMI [] wd dp = Inr rmi" and mi: "maxIndex rmi = - 1"
    and z: "\<And>l p. l < nat dp \<Longrightarrow> p < nat wd ^ l \<Longrightarrow> nodes rmi ! l ! p = Some zeroNode"
    using empty_tree [OF assms] by blast
  have f: "width rmi = wd" "depth rmi = dp" "root rmi = nodes rmi ! 0 ! 0"
    using r by (auto elim!: NewRMI_Inr)
  note n = NewRMI_nodes [OF assms(1) r]
  have rt: "root rmi = Some zeroNode"
    using z [of 0 0] f(3) assms(2) by simp
  have "GetIndex_loop rmi key (NewFloat (width rmi)) (Some zeroNode) 1 0
      = (0 + Suc (nat dp - 1), Inr (- 1))" for key
    by (rule zero_tree_query [where k = "nat dp - 1"])
      (use assms n z mi f in simp_all)
  then have "GetIndex rmi key = Inr (- 1)" for key
    by (simp add: GetIndex_def GetIndex_run_def rt)
  then show ?thesis
    using r mi by blast
qed


theorem empty_tree_query_witness:
  "\<exists>rmi. (1::int) \<le> 2 \<and> (1::int) \<le> 3 \<and> NewRMI [] 2 3 = Inr rmi \<and> maxIndex rmi = - 1
     \<and> GetIndex rmi 0 = Inr (- 1) \<and> GetIndex rmi 5 = Inr (- 1) \<and> GetIndex rmi (- 7) = Inr (- 1)"
proof -
  have w: "(1::int) \<le> 2" and d: "(1::int) \<le> 3"
    by simp_all
  show ?thesis
    using empty_tree_query [OF w d] by auto
qed

lemma two_key_tree:
  "NewRMI [0, 8] 1 2 =
     Inr \<lparr>width = 1, depth = 2,
          root = Some \<lparr>m = Finite 53 False (1 / 8), b = Finite 53 False 0, w = Finite 53 True 0\<rparr>,
          nodes =
            [[Some \<lparr>m = Finite 53 False (1 / 8), b = Finite 53 False 0, w = Finite 53 True 0\<rparr>],
             [Some \<lparr>m = Finite 53 False 0, b = Finite 64 False 0, w = Finite 53 False 0\<rparr>]],
          maxIndex = 1\<rparr>"
  by code_simp


lemma four_key_tree:
  "NewRMI [0, 8, 16, 24] 2 2 =
     Inr \<lparr>width = 2, depth = 2,
          root = Some \<lparr>m = Finite 53 False (1 / 8), b = Finite 53 False 0, w = Finite 53 True 0\<rparr>,
          nodes =
            [[Some \<lparr>m = Finite 53 False (1 / 8), b = Finite 53 False 0, w = Finite 53 True 0\<rparr>],
             [Some \<lparr>m = Finite 53 False (1 / 8), b = Finite 53 False 0, w = Finite 53 True 0\<rparr>,
              Some \<lparr>m = Finite 53 False 0, b = Finite 64 False 2, w = Finite 53 False 0\<rparr>]],
          maxIndex = 3\<rparr>"
  by code_simp


text \<open>
  Claim C1, amended. On every tree built with width and depth at least 1 from two keys or
  more, or from one key with depth 1, \<open>GetIndex\<close> returns for every key, and what it
  returns is an index between 0 and \<open>maxIndex\<close>.
\<close>

theorem GetIndex_in_bounds:
  assumes "1 \<le> wd" and "1 \<le> dp" and "NewRMI values wd dp = Inr rmi"
    and "2 \<le> length values \<or> (1 \<le> length values \<and> dp = 1)"
  shows "\<exists>i. GetIndex rmi key = Inr i \<and> 0 \<le> i \<and> i \<le> maxIndex rmi"
proof -
  have "maxIndex rmi = int (length values) - 1"
    using assms(3) by (auto elim!: NewRMI_Inr)
  then have mi: "\<not> maxIndex rmi < 0"
    using assms(4) by auto
  have "length values \<noteq> 1 \<or> dp = 1"
    using assms(4) by auto
  from GetIndex_run_total [OF assms(1,2,3) this, of key] mi show ?thesis
    by (auto simp: GetIndex_def)
qed

theorem GetIndex_in_bounds_witness:
  "\<exists>rmi. (1::int) \<le> 1 \<and> (1::int) \<le> 2 \<and> NewRMI [0, 8] 1 2 = Inr rmi
     \<and> (2 \<le> length [0, 8 :: int] \<or> (1 \<le> length [0, 8 :: int] \<and> (2::int) = 1))
     \<and> (\<exists>i. GetIndex rmi 8 = Inr i \<and> 0 \<le> i \<and> i \<le> maxIndex rmi)"
proof -
  have w: "(1::int) \<le> 1" and d: "(1::int) \<le> 2"
    and v: "2 \<le> length [0, 8 :: int] \<or> (1 \<le> length [0, 8 :: int] \<and> (2::int) = 1)"
    by simp_all
  show ?thesis
    using GetIndex_in_bounds [OF w d two_key_tree v, of 8] two_key_tree w d v by blast
qed

text \<open>
  Claim C1 as stated fails on two trees. The tree built from no key, with width 1 and
  depth 1, has \<open>maxIndex = -1\<close>, and the query for the key 7 returns -1, which lies in no
  range from 0. The tree built from the single key 5 with width 2 and depth 2 has
  \<open>maxIndex = 0\<close>, and the query for the key 5 does not return: the root predicts 0, and
  the division of 0 by \<open>maxIndex\<close> panics.
\<close>

theorem GetIndex_out_of_bounds:
  "NewRMI [] 1 1 =
     Inr \<lparr>width = 1, depth = 1,
          root = Some \<lparr>m = Finite 53 False 0, b = Finite 64 False 0, w = Finite 53 False 0\<rparr>,
          nodes = [[Some \<lparr>m = Finite 53 False 0, b = Finite 64 False 0, w = Finite 53 False 0\<rparr>]],
          maxIndex = - 1\<rparr>
   \<and> GetIndex
        \<lparr>width = 1, depth = 1,
          root = Some \<lparr>m = Finite 53 False 0, b = Finite 64 False 0, w = Finite 53 False 0\<rparr>,
          nodes = [[Some \<lparr>m = Finite 53 False 0, b = Finite 64 False 0, w = Finite 53 False 0\<rparr>]],
          maxIndex = - 1\<rparr> 7 = Inr (- 1)
   \<and> NewRMI [5] 2 2 =
     Inr \<lparr>width = 2, depth = 2,
          root = Some \<lparr>m = Finite 53 False 0, b = Finite 64 False 0, w = Finite 53 False 0\<rparr>,
          nodes =
            [[Some \<lparr>m = Finite 53 False 0, b = Finite 64 False 0, w = Finite 53 False 0\<rparr>],
             [Some \<lparr>m = Finite 53 False 0, b = Finite 64 False 0, w = Finite 53 False 0\<rparr>,
              Some \<lparr>m = Finite 53 False 0, b = Finite 64 False 0, w = Finite 53 False 0\<rparr>]],
          maxIndex = 0\<rparr>
   \<and> GetIndex
        \<lparr>width = 2, depth = 2,
          root = Some \<lparr>m = Finite 53 False 0, b = Finite 64 False 0, w = Finite 53 False 0\<rparr>,
          nodes =
            [[Some \<lparr>m = Finite 53 False 0, b = Finite 64 False 0, w = Finite 53 False 0\<rparr>],
             [Some \<lparr>m = Finite 53 False 0, b = Finite 64 False 0, w = Finite 53 False 0\<rparr>,
              Some \<lparr>m = Finite 53 False 0, b = Finite 64 False 0, w = Finite 53 False 0\<rparr>]],
          maxIndex = 0\<rparr> 5 = Inl ErrNaN"
proof -
  let ?z = "\<lparr>m = Finite 53 False 0, b = Finite 64 False 0, w = Finite 53 False 0\<rparr>"
  have 1: "NewRMI [] 1 1 =
      Inr \<lparr>width = 1, depth = 1, root = Some ?z, nodes = [[Some ?z]], maxIndex = - 1\<rparr>"
    by code_simp
  have 2: "GetIndex \<lparr>width = 1, depth = 1, root = Some ?z, nodes = [[Some ?z]],
                     maxIndex = - 1\<rparr> 7 = Inr (- 1)"
    by code_simp
  have 3: "GetIndex \<lparr>width = 2, depth = 2, root = Some ?z,
                     nodes = [[Some ?z], [Some ?z, Some ?z]], maxIndex = 0\<rparr> 5 = Inl ErrNaN"
    by code_simp
  show ?thesis
    using 1 2 3 single_key_tree by blast
qed

section \<open>How the loop carves the range of a node\<close>

lemma clampLR_right: "0 < n \<Longrightarrow> snd (clampLR n left right) \<le> n - 1"
  by (simp add: clampLR_def)

lemma clampLR_left: "0 \<le> left \<Longrightarrow> 0 \<le> fst (clampLR n left right)"
  by (simp add: clampLR_def)

lemma set_cut: "set (cut xs lo hi) \<subseteq> set (take (nat hi) xs)"
proof -
  have "cut xs lo hi = drop (nat lo) (take (nat hi) xs)"
    by (simp add: cut_def drop_take)
  then show ?thesis
    by (simp add: set_drop_subset)
qed

lemma last_not_in_take:
  assumes "distinct xs" "k < length xs"
  shows "last xs \<notin> set (take k xs)"
proof -
  have ne: "drop k xs \<noteq> []"
    using assms(2) by simp
  have "xs = take k xs @ drop k xs"
    by simp
  then have "last xs = last (drop k xs)"
    using ne by (metis last_appendR)
  then have "last xs \<in> set (drop k xs)"
    using ne by (metis last_in_set)
  moreover have "set (take k xs) \<inter> set (drop k xs) = {}"
    using assms(1) by (metis append_take_drop_id distinct_append)
  ultimately show ?thesis
    by blast
qed

lemma children_loop_drop_last:
  assumes "distinct indices" "indices \<noteq> []"
  shows "(vs, ranks, off) \<in> set (children_loop k values indices offset rs left right)
    \<Longrightarrow> last indices \<notin> set ranks"
proof (induction k arbitrary: offset left right)
  case 0
  then show ?case by simp
next
  case (Suc k)
  let ?n = "int (length indices)"
  obtain l1 r1 where lr: "clampLR ?n left right = (l1, r1)"
    by (cases "clampLR ?n left right")
  have n: "0 < ?n"
    using assms(2) by simp
  have r1: "r1 \<le> ?n - 1"
    using clampLR_right [OF n, of left right] lr by simp
  let ?sub = "if l1 \<noteq> r1 then cut indices l1 r1 else []"
  let ?off = "if ?sub = [] then offset else hd ?sub"
  from Suc.prems have "(vs, ranks, off) = (cut values l1 r1, ?sub, ?off)
      \<or> (vs, ranks, off) \<in> set (children_loop k values indices ?off rs r1
               (nextRight ?n rs r1))"
    by (simp add: lr Let_def case_list_hd)
  then show ?case
  proof
    assume "(vs, ranks, off) = (cut values l1 r1, ?sub, ?off)"
    then have "set ranks \<subseteq> set (take (nat r1) indices)"
      using set_cut [of indices l1 r1] by auto
    moreover have "nat r1 < length indices"
      using r1 n by linarith
    ultimately show ?thesis
      using last_not_in_take [OF assms(1)] by blast
  next
    assume "(vs, ranks, off) \<in> set (children_loop k values indices ?off rs r1
               (nextRight ?n rs r1))"
    then show ?thesis
      by (rule Suc.IH)
  qed
qed

lemma last_rank_dropped:
  assumes "distinct indices" "indices \<noteq> []"
    and "(vs, ranks, off) \<in> set (childArgs wd (values, indices, offset))"
  shows "last indices \<notin> set ranks"
  using assms(3) children_loop_drop_last [OF assms(1,2)]
  by (auto simp: childArgs_def Let_def)

lemma length_carve [simp]: "length (carve k n rs left right) = k"
  by (induction k arbitrary: left right) (simp_all add: Let_def split: prod.splits)

lemma length_childBounds [simp]: "length (childBounds wd n) = nat wd"
  by (simp add: childBounds_def Let_def)

lemma cut_same [simp]: "cut xs l l = []"
  by (simp add: cut_def)

lemma children_loop_carve:
  "i < k \<Longrightarrow>
     fst (children_loop k values indices offset rs left right ! i)
       = cut values (fst (carve k (int (length indices)) rs left right ! i))
           (snd (carve k (int (length indices)) rs left right ! i))
     \<and> fst (snd (children_loop k values indices offset rs left right ! i))
       = cut indices (fst (carve k (int (length indices)) rs left right ! i))
           (snd (carve k (int (length indices)) rs left right ! i))"
proof (induction k arbitrary: i offset left right)
  case 0
  then show ?case by simp
next
  case (Suc k)
  obtain l1 r1 where lr: "clampLR (int (length indices)) left right = (l1, r1)"
    by (cases "clampLR (int (length indices)) left right")
  show ?case
  proof (cases i)
    case 0
    then show ?thesis
      by (simp add: lr Let_def)
  next
    case (Suc j)
    then have "j < k"
      using Suc.prems by simp
    from Suc.IH [OF this] show ?thesis
      using Suc by (simp add: lr Let_def)
  qed
qed

lemma stepInv_init:
  assumes "0 \<le> n" "1 \<le> wd"
  shows "stepInv n (n div wd) 0 (max 0 (n div wd))"
proof -
  have "0 \<le> n div wd"
    using assms by (simp add: pos_imp_zdiv_nonneg_iff)
  then show ?thesis
    using carveInv_init [OF assms(1), of wd] by (simp add: stepInv_def)
qed

lemma stepInv_next:
  assumes "stepInv n rs left right" "0 \<le> n" "clampLR n left right = (l1, r1)"
  shows "stepInv n rs r1 (nextRight n rs r1)"
proof -
  have c: "carveInv n rs left right" and rs: "0 \<le> rs"
    using assms(1) by (simp_all add: stepInv_def)
  have "0 \<le> r1"
    using clampLR_bounds [OF c assms(2,3)] by linarith
  then have "nextRight n rs r1 - r1 \<le> rs"
    using rs by (auto simp: nextRight_def)
  then show ?thesis
    using carveInv_next [OF c assms(2,3)] rs by (simp add: stepInv_def)
qed

lemma stepInv_bounds:
  assumes "stepInv n rs left right" "0 \<le> n" "clampLR n left right = (l1, r1)"
  shows "0 \<le> l1 \<and> l1 \<le> r1 \<and> r1 \<le> n \<and> r1 - l1 \<le> rs"
proof -
  have c: "carveInv n rs left right"
    using assms(1) by (simp add: stepInv_def)
  have "0 \<le> l1 \<and> l1 \<le> r1 \<and> r1 \<le> n"
    using clampLR_bounds [OF c assms(2,3)] by simp
  moreover have "r1 - l1 \<le> rs"
    using assms(1,3) by (auto simp: stepInv_def carveInv_def clampLR_def split: if_splits)
  ultimately show ?thesis
    by simp
qed

lemma carve_bounds:
  "stepInv n rs left right \<Longrightarrow> 0 \<le> n \<Longrightarrow> i < k \<Longrightarrow>
     0 \<le> fst (carve k n rs left right ! i)
     \<and> fst (carve k n rs left right ! i) \<le> snd (carve k n rs left right ! i)
     \<and> snd (carve k n rs left right ! i) \<le> n
     \<and> snd (carve k n rs left right ! i) - fst (carve k n rs left right ! i) \<le> rs"
proof (induction k arbitrary: i left right)
  case 0
  then show ?case by simp
next
  case (Suc k)
  obtain l1 r1 where lr: "clampLR n left right = (l1, r1)"
    by (cases "clampLR n left right")
  show ?case
  proof (cases i)
    case 0
    then show ?thesis
      using stepInv_bounds [OF Suc.prems(1,2) lr] by (simp add: lr)
  next
    case (Suc j)
    then have "j < k"
      using Suc.prems(3) by simp
    from Suc.IH [OF stepInv_next [OF Suc.prems(1,2) lr] Suc.prems(2) this] show ?thesis
      using Suc by (simp add: lr)
  qed
qed

lemma carve_head:
  "0 < k \<Longrightarrow> fst (carve k n rs left right ! 0) = fst (clampLR n left right)"
  by (cases k) (simp_all add: Let_def split: prod.splits)

lemma clampLR_running:
  assumes "stepInv n rs left right" "0 \<le> n" "clampLR n left right = (l1, r1)"
  shows "fst (clampLR n r1 (nextRight n rs r1)) = r1"
  using assms
  by (auto simp: stepInv_def carveInv_def clampLR_def nextRight_def split: if_splits)

lemma carve_running:
  "stepInv n rs left right \<Longrightarrow> 0 \<le> n \<Longrightarrow> Suc i < k \<Longrightarrow>
     fst (carve k n rs left right ! Suc i) = snd (carve k n rs left right ! i)"
proof (induction k arbitrary: i left right)
  case 0
  then show ?case by simp
next
  case (Suc k)
  obtain l1 r1 where lr: "clampLR n left right = (l1, r1)"
    by (cases "clampLR n left right")
  show ?case
  proof (cases i)
    case 0
    then have "0 < k"
      using Suc.prems(3) by simp
    then show ?thesis
      using 0 clampLR_running [OF Suc.prems(1,2) lr] by (simp add: lr carve_head)
  next
    case (Suc j)
    then have "Suc j < k"
      using Suc.prems(3) by simp
    from Suc.IH [OF stepInv_next [OF Suc.prems(1,2) lr] Suc.prems(2) this] show ?thesis
      using Suc by (simp add: lr)
  qed
qed

lemma childArgs_carve:
  assumes "i < nat wd" "length indices = length values"
  shows "fst (childArgs wd (values, indices, offset) ! i)
       = cut values (fst (childBounds wd (length indices) ! i))
           (snd (childBounds wd (length indices) ! i))"
    and "fst (snd (childArgs wd (values, indices, offset) ! i))
       = cut indices (fst (childBounds wd (length indices) ! i))
           (snd (childBounds wd (length indices) ! i))"
  using children_loop_carve [OF assms(1), of "values" indices offset] assms(2)
  by (simp_all add: childArgs_def childBounds_def Let_def)

lemma childBounds_props:
  assumes "1 \<le> wd"
  shows "i < nat wd \<Longrightarrow>
      0 \<le> fst (childBounds wd n ! i) \<and> fst (childBounds wd n ! i) \<le> snd (childBounds wd n ! i)
      \<and> snd (childBounds wd n ! i) \<le> int n
      \<and> snd (childBounds wd n ! i) - fst (childBounds wd n ! i) \<le> int n div wd"
    and "fst (childBounds wd n ! 0) = 0"
    and "Suc i < nat wd \<Longrightarrow> fst (childBounds wd n ! Suc i) = snd (childBounds wd n ! i)"
proof -
  have inv: "stepInv (int n) (int n div wd) 0 (max 0 (int n div wd))"
    using assms by (intro stepInv_init) simp_all
  show "0 \<le> fst (childBounds wd n ! i) \<and> fst (childBounds wd n ! i) \<le> snd (childBounds wd n ! i)
      \<and> snd (childBounds wd n ! i) \<le> int n
      \<and> snd (childBounds wd n ! i) - fst (childBounds wd n ! i) \<le> int n div wd"
    if "i < nat wd"
    unfolding childBounds_def Let_def
    by (rule carve_bounds [OF inv]) (use that in simp_all)
  have "0 < nat wd"
    using assms by simp
  then show "fst (childBounds wd n ! 0) = 0"
    by (simp add: childBounds_def Let_def carve_head clampLR_def)
  show "fst (childBounds wd n ! Suc i) = snd (childBounds wd n ! i)" if "Suc i < nat wd"
    unfolding childBounds_def Let_def
    by (rule carve_running [OF inv]) (use that in simp_all)
qed




section \<open>Trees on which the divisions fail\<close>

text \<open>
  Claim C9, at the tree built from the single key 5 with width 2 and depth 2: the query
  evaluates the model of the root and stops in the panic of the division by \<open>maxIndex\<close>;
  it evaluates one node model, not \<open>depth = 2\<close>, and returns no index. On every other
  tree built with width and depth at least 1 the query evaluates \<open>depth\<close> models.
\<close>

theorem GetIndex_single_key_evals:
  "\<exists>rmi. NewRMI [5] 2 2 = Inr rmi \<and> depth rmi = 2
         \<and> GetIndex_run rmi 5 = (1, Inl ErrNaN) \<and> GetIndex_evals rmi 5 = 1"
proof -
  let ?z = "\<lparr>m = Finite 53 False 0, b = Finite 64 False 0, w = Finite 53 False 0\<rparr>"
  let ?rmi = "\<lparr>width = 2, depth = 2, root = Some ?z, nodes = [[Some ?z], [Some ?z, Some ?z]],
               maxIndex = 0\<rparr>"
  have "GetIndex_run ?rmi 5 = (1, Inl ErrNaN)"
    by code_simp
  with single_key_tree show ?thesis
    by (simp add: GetIndex_evals_def)
qed

text \<open>
  Claim C4, at the keys 5, 5 with width 1 and depth 1: the root has two samples, both
  deviations from the mean are zero, so covariance and variance are zero, and the
  division of the one by the other panics; \<open>NewRMI\<close> does not return.
\<close>

theorem NewRMI_zero_variance_panics:
  "coefficients [5, 5] [0, 1] = Inl ErrNaN \<and> NewRMI [5, 5] 1 1 = Inl (Panic ErrNaN)"
  by code_simp

end
